theory Spec2Isabelle
  imports Main "HOL-Library.Multiset"
begin


section \<open>The map generator: tiles, the store and the random source\<close>

text \<open>
  The program (\<^verbatim>\<open>main.py\<close>) evolves 30 x 30 tile maps. A map is a Python list of row
  lists; rows are mutable objects, and \<^verbatim>\<open>tile_map[y][x] = v\<close> writes into a row object
  that other lists may hold too. The model therefore keeps every row object in a store
  (\<open>heap\<close>, a row's address is its position) and a map is the list of the addresses of
  its rows. An outer list is never changed once the map is built, so it is a value.

  Randomness comes from Python's module-level generator, which the program never seeds.
  The model reads it from a \<open>tape\<close>: every call of \<^verbatim>\<open>random.randint\<close>,
  \<^verbatim>\<open>random.random\<close> or \<^verbatim>\<open>random.choice\<close> consumes one entry. When the tape is empty
  the computation stops with \<open>OutOfDraws\<close>: the source would still be drawing (the seed
  search of \<^verbatim>\<open>place_rocks\<close> is a \<^verbatim>\<open>while True\<close> loop), so a tape is also the fuel
  of a run.
\<close>

datatype tile = PLAINS | MOUNTAIN | RIVER | ROCK

datatype error = IndexError | ValueError | OutOfDraws

type_synonym grid = "nat list"

record world =
  heap :: "tile list list"
  tape :: "nat list"

type_synonym 'a prog = "world \<Rightarrow> error + ('a \<times> world)"

abbreviation MAP_WIDTH :: nat where "MAP_WIDTH \<equiv> 30"
abbreviation MAP_HEIGHT :: nat where "MAP_HEIGHT \<equiv> 30"
abbreviation POPULATION_SIZE :: nat where "POPULATION_SIZE \<equiv> 50"
abbreviation GENERATIONS :: nat where "GENERATIONS \<equiv> 200"

subsection \<open>Sequencing, raising and loops\<close>

definition ret :: "'a \<Rightarrow> 'a prog" where
  "ret x w = Inr (x, w)"

definition raise :: "error \<Rightarrow> 'a prog" where
  "raise e w = Inl e"

definition bnd :: "'a prog \<Rightarrow> ('a \<Rightarrow> 'b prog) \<Rightarrow> 'b prog" where
  "bnd m f w = (case m w of Inl e \<Rightarrow> Inl e | Inr (x, w') \<Rightarrow> f x w')"

definition seq :: "unit prog \<Rightarrow> 'b prog \<Rightarrow> 'b prog" where
  "seq m n = bnd m (\<lambda>_. n)"

text \<open>A \<^verbatim>\<open>for\<close> loop over a list; \<open>acc\<close> holds the local variables the body updates.\<close>

fun for_loop :: "'a list \<Rightarrow> ('a \<Rightarrow> 's \<Rightarrow> 's prog) \<Rightarrow> 's \<Rightarrow> 's prog" where
  "for_loop [] body acc = ret acc"
| "for_loop (x # xs) body acc = bnd (body x acc) (for_loop xs body)"

definition for_each :: "'a list \<Rightarrow> ('a \<Rightarrow> unit prog) \<Rightarrow> unit prog" where
  "for_each xs body = for_loop xs (\<lambda>x _. body x) ()"

subsection \<open>Rows in the store, Python indexing\<close>

definition read_row :: "nat \<Rightarrow> tile list prog" where
  "read_row a w = Inr (heap w ! a, w)"

definition write_row :: "nat \<Rightarrow> tile list \<Rightarrow> unit prog" where
  "write_row a r w = Inr ((), w\<lparr>heap := (heap w)[a := r]\<rparr>)"

definition alloc :: "tile list \<Rightarrow> nat prog" where
  "alloc r w = Inr (length (heap w), w\<lparr>heap := heap w @ [r]\<rparr>)"

text \<open>Python's index into a sequence of length \<open>n\<close>: negative indices count from the end.\<close>

definition py_index :: "nat \<Rightarrow> int \<Rightarrow> nat prog" where
  "py_index n i =
     (if 0 \<le> i \<and> i < int n then ret (nat i)
      else if - int n \<le> i \<and> i < 0 then ret (nat (i + int n))
      else raise IndexError)"

text \<open>\<^verbatim>\<open>tile_map[y][x]\<close> and \<^verbatim>\<open>tile_map[y][x] = v\<close>.\<close>

definition cell :: "grid \<Rightarrow> int \<Rightarrow> int \<Rightarrow> tile prog" where
  "cell g y x =
     bnd (py_index (length g) y) (\<lambda>j.
     bnd (read_row (g ! j)) (\<lambda>row.
     bnd (py_index (length row) x) (\<lambda>k.
     ret (row ! k))))"

definition put :: "grid \<Rightarrow> int \<Rightarrow> int \<Rightarrow> tile \<Rightarrow> unit prog" where
  "put g y x v =
     bnd (py_index (length g) y) (\<lambda>j.
     bnd (read_row (g ! j)) (\<lambda>row.
     bnd (py_index (length row) x) (\<lambda>k.
     write_row (g ! j) (row[k := v]))))"

subsection \<open>The random source\<close>

definition draw :: "nat prog" where
  "draw w = (case tape w of [] \<Rightarrow> Inl OutOfDraws | r # t \<Rightarrow> Inr (r, w\<lparr>tape := t\<rparr>))"

text \<open>\<^verbatim>\<open>random.randint(a, b)\<close>: an integer of \<open>[a, b]\<close>.\<close>

definition randint :: "int \<Rightarrow> int \<Rightarrow> int prog" where
  "randint a b = bnd draw (\<lambda>r. ret (a + int r mod (b - a + 1)))"

text \<open>
  \<^verbatim>\<open>random.random() < MUTATION_RATE\<close> with the rate 0.03: only the outcome of the
  comparison matters, and both outcomes are possible.
\<close>

definition random_below_rate :: "bool prog" where
  "random_below_rate = bnd draw (\<lambda>r. ret (r mod 100 < 3))"

text \<open>\<^verbatim>\<open>random.choice(seq)\<close> raises IndexError on an empty sequence.\<close>

definition choice :: "'a list \<Rightarrow> 'a prog" where
  "choice xs = (if xs = [] then raise IndexError
                else bnd draw (\<lambda>r. ret (xs ! (r mod length xs))))"

definition tile_of_int :: "int \<Rightarrow> tile" where
  "tile_of_int v = (if v = 0 then PLAINS else if v = 1 then MOUNTAIN
                    else if v = 2 then RIVER else ROCK)"

section \<open>The functions of main.py\<close>

subsection \<open>generate_random_map\<close>

definition generate_random_map :: "grid prog" where
  "generate_random_map =
     for_loop [0..<MAP_HEIGHT] (\<lambda>y m.
       bnd (for_loop [0..<MAP_WIDTH] (\<lambda>x row.
              if x = 0 \<or> x = MAP_WIDTH - 1 \<or> y = 0 \<or> y = MAP_HEIGHT - 1
              then ret (row @ [MOUNTAIN])
              else bnd (randint 0 3) (\<lambda>v. ret (row @ [tile_of_int v]))) [])
         (\<lambda>row.
       bnd (alloc row) (\<lambda>a.
       ret (m @ [a])))) []"

subsection \<open>is_in_central_circle, enforce_constraints\<close>

definition is_in_central_circle :: "int \<Rightarrow> int \<Rightarrow> int \<Rightarrow> int \<Rightarrow> bool" where
  "is_in_central_circle x y center radius =
     ((x - center)\<^sup>2 + (y - center)\<^sup>2 \<le> radius\<^sup>2)"

definition enforce_constraints :: "grid \<Rightarrow> unit prog" where
  "enforce_constraints tile_map =
     seq (for_each [0..<MAP_HEIGHT] (\<lambda>y.
            for_each [0..<MAP_WIDTH] (\<lambda>x.
              if is_in_central_circle (int x) (int y) 15 8
              then put tile_map (int y) (int x) PLAINS
              else ret ())))
    (seq (for_each [0..<MAP_WIDTH] (\<lambda>x.
            seq (put tile_map 0 (int x) MOUNTAIN)
                (put tile_map (int MAP_HEIGHT - 1) (int x) MOUNTAIN)))
         (for_each [0..<MAP_HEIGHT] (\<lambda>y.
            seq (put tile_map (int y) 0 MOUNTAIN)
                (put tile_map (int y) (int MAP_WIDTH - 1) MOUNTAIN))))"

subsection \<open>get_river_row, place_river\<close>

text \<open>
  \<^verbatim>\<open>int(15 + 3 * math.sin(2 * math.pi * x / MAP_WIDTH))\<close> is floating-point code; the
  program calls it for the columns 0 to 29 only, and the table holds its values there
  (the sine is never within 0.016 of a rounding boundary, except at columns 0 and 15,
  where the double result is 15.0 and 15.000000000000002).
\<close>

definition river_rows :: "int list" where
  "river_rows = [15, 15, 16, 16, 17, 17, 17, 17, 17, 17,
                 17, 17, 16, 16, 15, 15, 14, 13, 13, 12,
                 12, 12, 12, 12, 12, 12, 12, 13, 13, 14]"

definition get_river_row :: "nat \<Rightarrow> int" where
  "get_river_row x = river_rows ! x"

definition place_river :: "grid \<Rightarrow> unit prog" where
  "place_river tile_map =
     for_each [0..<MAP_WIDTH] (\<lambda>x.
       let y_river = get_river_row x in
       for_each [-1, 0, 1] (\<lambda>offset.
         let yy = y_river + offset in
         if 0 < yy \<and> yy < int MAP_HEIGHT - 1
         then put tile_map yy (int x) RIVER
         else ret ()))"

subsection \<open>place_rocks\<close>

lemma bnd_cong [fundef_cong]:
  "m w = m' w' \<Longrightarrow> (\<And>x v. m' w' = Inr (x, v) \<Longrightarrow> f x v = f' x v)
     \<Longrightarrow> bnd m f w = bnd m' f' w'"
  by (auto simp: bnd_def split: sum.splits)

lemma draw_shorter: "draw w = Inr (r, w') \<Longrightarrow> length (tape w') < length (tape w)"
  by (auto simp: draw_def split: list.splits)

lemma randint_shorter:
  "randint a b w = Inr (r, w') \<Longrightarrow> length (tape w') < length (tape w)"
  by (auto simp: randint_def bnd_def ret_def split: sum.splits dest: draw_shorter)

lemma py_index_same: "py_index n i w = Inr (j, w') \<Longrightarrow> w' = w"
  by (auto simp: py_index_def ret_def raise_def split: if_splits)

lemma cell_same: "cell g y x w = Inr (v, w') \<Longrightarrow> w' = w"
  by (auto simp: cell_def bnd_def ret_def read_row_def split: sum.splits
           dest!: py_index_same)

text \<open>
  The \<^verbatim>\<open>while True\<close> loop that looks for a cluster seed: it draws a point until the
  tile there is not a mountain. Each round consumes two draws.
\<close>

function find_seed :: "grid \<Rightarrow> (int \<times> int) prog" where
  "find_seed tile_map w =
     bnd (randint 5 (int MAP_WIDTH - 5)) (\<lambda>cx.
     bnd (randint 5 (int MAP_HEIGHT - 5)) (\<lambda>cy.
     bnd (cell tile_map cy cx) (\<lambda>v w'.
     if v \<noteq> MOUNTAIN then ret (cx, cy) w' else find_seed tile_map w'))) w"
  by pat_completeness auto
termination
proof (relation "measure (\<lambda>(g, w). length (tape w))", goal_cases)
  case 1
  show ?case by simp
next
  case (2 tile_map w cx w1 cy w2 v w3)
  then show ?case
    by (auto dest!: randint_shorter cell_same)
qed

definition place_rocks :: "grid \<Rightarrow> nat \<Rightarrow> unit prog" where
  "place_rocks tile_map num_clusters =
     for_each [0..<num_clusters] (\<lambda>_.
       bnd (find_seed tile_map) (\<lambda>(cx, cy).
       bnd (randint 3 5) (\<lambda>cluster_size.
       for_each [0..<nat cluster_size] (\<lambda>_.
         bnd (randint (-1) 1) (\<lambda>dx.
         bnd (randint (-1) 1) (\<lambda>dy.
         let nx = cx + dx; ny = cy + dy in
         if 0 < nx \<and> nx < int MAP_WIDTH - 1 \<and> 0 < ny \<and> ny < int MAP_HEIGHT - 1
         then bnd (cell tile_map ny nx) (\<lambda>v.
              if v = PLAINS then put tile_map ny nx ROCK else ret ())
         else ret ()))))))"

declare find_seed.simps [simp del]

subsection \<open>calculate_fitness\<close>

text \<open>The inner loop of the river term, with its \<^verbatim>\<open>break\<close>.\<close>

fun found_river_in_band :: "grid \<Rightarrow> nat \<Rightarrow> int \<Rightarrow> int list \<Rightarrow> bool prog" where
  "found_river_in_band tile_map x y_river [] = ret False"
| "found_river_in_band tile_map x y_river (offset # offsets) =
     (let yy = y_river + offset in
      if 0 \<le> yy \<and> yy < int MAP_HEIGHT
      then bnd (cell tile_map yy (int x)) (\<lambda>v.
           if v = RIVER then ret True
           else found_river_in_band tile_map x y_river offsets)
      else found_river_in_band tile_map x y_river offsets)"

definition fitness_central :: "grid \<Rightarrow> int \<Rightarrow> int prog" where
  "fitness_central tile_map score0 =
     for_loop [0..<MAP_HEIGHT] (\<lambda>y.
       for_loop [0..<MAP_WIDTH] (\<lambda>x score.
         if is_in_central_circle (int x) (int y) 15 8
         then bnd (cell tile_map (int y) (int x)) (\<lambda>v.
              if v = PLAINS then ret (score + 1) else ret (score - 1))
         else ret score)) score0"

definition fitness_mountains :: "grid \<Rightarrow> int \<Rightarrow> int prog" where
  "fitness_mountains tile_map score0 =
     for_loop [0..<MAP_WIDTH] (\<lambda>x.
       for_loop [0..<MAP_HEIGHT] (\<lambda>y score.
         bnd (cell tile_map (int y) (int x)) (\<lambda>v.
         if v = MOUNTAIN
         then (if is_in_central_circle (int x) (int y) 15 13
               then ret (score - 10) else ret (score + 5))
         else ret score))) score0"

definition fitness_river :: "grid \<Rightarrow> int \<Rightarrow> int prog" where
  "fitness_river tile_map score0 =
     for_loop [0..<MAP_WIDTH] (\<lambda>x score.
       bnd (found_river_in_band tile_map x (get_river_row x) [-1, 0, 1]) (\<lambda>found.
       if found then ret (score + 50) else ret (score - 500))) score0"

definition count_rocks :: "grid \<Rightarrow> int prog" where
  "count_rocks tile_map =
     for_loop [0..<MAP_HEIGHT] (\<lambda>y.
       for_loop [0..<MAP_WIDTH] (\<lambda>x rock_count.
         bnd (cell tile_map (int y) (int x)) (\<lambda>v.
         if v = ROCK then ret (rock_count + 1) else ret rock_count))) 0"

definition calculate_fitness :: "grid \<Rightarrow> int prog" where
  "calculate_fitness tile_map =
     bnd (fitness_central tile_map 0) (\<lambda>score.
     bnd (fitness_mountains tile_map score) (\<lambda>score.
     bnd (fitness_river tile_map score) (\<lambda>score.
     bnd (count_rocks tile_map) (\<lambda>rock_count.
     if 20 \<le> rock_count \<and> rock_count \<le> 40 then ret (score + 50)
     else ret (score - \<bar>rock_count - 22\<bar>)))))"

subsection \<open>crossover, mutate\<close>

text \<open>\<^verbatim>\<open>m[y][:]\<close>: a new row object with the tiles of row \<open>y\<close> of \<open>m\<close>.\<close>

definition copy_row :: "grid \<Rightarrow> int \<Rightarrow> nat prog" where
  "copy_row m y =
     bnd (py_index (length m) y) (\<lambda>j.
     bnd (read_row (m ! j)) (\<lambda>row.
     alloc row))"

definition crossover :: "grid \<Rightarrow> grid \<Rightarrow> grid prog" where
  "crossover map1 map2' =
     (let mid = MAP_HEIGHT div 2 in
      for_loop [0..<MAP_HEIGHT] (\<lambda>y child.
        if y < mid
        then bnd (copy_row map1 (int y)) (\<lambda>a. ret (child @ [a]))
        else bnd (copy_row map2' (int y)) (\<lambda>a. ret (child @ [a]))) [])"

definition mutate_cells :: "grid \<Rightarrow> unit prog" where
  "mutate_cells tile_map =
     for_each [0..<MAP_HEIGHT] (\<lambda>y.
       for_each [0..<MAP_WIDTH] (\<lambda>x.
         bnd random_below_rate (\<lambda>hit.
         if hit
         then bnd (randint 0 3) (\<lambda>v. put tile_map (int y) (int x) (tile_of_int v))
         else ret ())))"

definition clear_rocks :: "grid \<Rightarrow> unit prog" where
  "clear_rocks tile_map =
     for_each [0..<MAP_HEIGHT] (\<lambda>yy.
       for_each [0..<MAP_WIDTH] (\<lambda>xx.
         bnd (cell tile_map (int yy) (int xx)) (\<lambda>v.
         if v = ROCK then put tile_map (int yy) (int xx) PLAINS else ret ())))"

definition mutate :: "grid \<Rightarrow> grid prog" where
  "mutate tile_map =
     seq (mutate_cells tile_map)
    (seq (enforce_constraints tile_map)
    (seq (place_river tile_map)
    (seq (clear_rocks tile_map)
    (seq (place_rocks tile_map 8)
         (ret tile_map)))))"

subsection \<open>main\<close>

text \<open>
  The population size and the number of generations are the module constants
  \<^verbatim>\<open>POPULATION_SIZE = 50\<close> and \<^verbatim>\<open>GENERATIONS = 200\<close>; the loops of \<^verbatim>\<open>main\<close> take them as
  arguments here, and \<open>main\<close> passes the constants. Printing and the rendering of the
  best map (\<^verbatim>\<open>render_map_image\<close>, image files) are left out: \<open>run\<close> returns the map that
  the source hands to the renderer.
\<close>

definition new_individual :: "grid prog" where
  "new_individual =
     bnd generate_random_map (\<lambda>individual.
     seq (enforce_constraints individual)
    (seq (place_river individual)
    (seq (place_rocks individual 8)
         (ret individual))))"

definition init_population :: "nat \<Rightarrow> grid list prog" where
  "init_population n =
     for_loop [0..<n] (\<lambda>_ population.
       bnd new_individual (\<lambda>individual.
       ret (population @ [individual]))) []"

definition fitness_scores :: "grid list \<Rightarrow> int list prog" where
  "fitness_scores population =
     for_loop population (\<lambda>ind scores.
       bnd (calculate_fitness ind) (\<lambda>s. ret (scores @ [s]))) []"

text \<open>\<^verbatim>\<open>max(xs)\<close> raises ValueError on an empty list.\<close>

definition py_max :: "int list \<Rightarrow> int prog" where
  "py_max xs = (if xs = [] then raise ValueError else ret (Max (set xs)))"

text \<open>
  \<^verbatim>\<open>sorted(zip(fitness_scores, population), key=lambda x: x[0], reverse=True)\<close>:
  Python's sort is stable, also with \<^verbatim>\<open>reverse=True\<close>.
\<close>

definition sorted_by_score :: "int list \<Rightarrow> grid list \<Rightarrow> grid list" where
  "sorted_by_score scores population =
     map snd (sort_key (\<lambda>p. - fst p) (zip scores population))"

definition make_child :: "grid list \<Rightarrow> grid prog" where
  "make_child sorted_pop =
     bnd (choice (take 15 sorted_pop)) (\<lambda>parent1.
     bnd (choice (take 15 sorted_pop)) (\<lambda>parent2.
     bnd (crossover parent1 parent2) (\<lambda>child.
     mutate child)))"

text \<open>\<^verbatim>\<open>while len(new_population) < POPULATION_SIZE\<close>.\<close>

function fill_population :: "nat \<Rightarrow> grid list \<Rightarrow> grid list \<Rightarrow> grid list prog" where
  "fill_population n sorted_pop new_population =
     (if length new_population < n
      then bnd (make_child sorted_pop) (\<lambda>child.
           fill_population n sorted_pop (new_population @ [child]))
      else ret new_population)"
  by pat_completeness auto
termination
  by (relation "measure (\<lambda>(n, sorted_pop, new_population). n - length new_population)") auto

declare fill_population.simps [simp del]

definition generation :: "nat \<Rightarrow> grid list \<Rightarrow> grid list prog" where
  "generation n population =
     bnd (fitness_scores population) (\<lambda>scores.
     bnd (py_max scores) (\<lambda>best_score.
     let sorted_pop = sorted_by_score scores population;
         new_population = take 5 sorted_pop
     in fill_population n sorted_pop new_population))"

text \<open>
  \<^verbatim>\<open>max(range(len(population)), key=lambda i: final_fitness_scores[i])\<close>: the first
  index with the greatest score; ValueError on an empty population.
\<close>

fun best_index_from :: "int list \<Rightarrow> nat \<Rightarrow> nat list \<Rightarrow> nat" where
  "best_index_from scores best [] = best"
| "best_index_from scores best (i # rest) =
     best_index_from scores (if scores ! best < scores ! i then i else best) rest"

definition best_index :: "int list \<Rightarrow> nat prog" where
  "best_index scores =
     (if scores = [] then raise ValueError
      else ret (best_index_from scores 0 [1..<length scores]))"

definition run :: "nat \<Rightarrow> nat \<Rightarrow> grid prog" where
  "run n gens =
     bnd (init_population n) (\<lambda>population.
     bnd (for_loop [0..<gens] (\<lambda>generation_no population. generation n population)
            population) (\<lambda>population.
     bnd (fitness_scores population) (\<lambda>final_fitness_scores.
     bnd (best_index final_fitness_scores) (\<lambda>i.
     ret (population ! i)))))"

definition main :: "grid list prog" where
  "main =
     for_loop [0..<10] (\<lambda>i best_maps.
       bnd (run POPULATION_SIZE GENERATIONS) (\<lambda>best_map.
       ret (best_maps @ [best_map]))) []"

section \<open>Specification vocabulary\<close>

text \<open>
  A triple \<open>hoare E P m Q\<close>: from a store that satisfies \<open>P\<close> the computation \<open>m\<close> either
  returns a value and a store that satisfy \<open>Q\<close>, or stops with an error that \<open>E\<close> allows.
  With \<open>starved\<close> the only error allowed is the exhaustion of the random source (partial
  correctness: no IndexError, no ValueError); with \<open>never\<close> no error is allowed, so the
  computation returns.
\<close>

definition hoare ::
  "(error \<Rightarrow> bool) \<Rightarrow> (world \<Rightarrow> bool) \<Rightarrow> 'a prog \<Rightarrow> ('a \<Rightarrow> world \<Rightarrow> bool) \<Rightarrow> bool" where
  "hoare E P m Q = (\<forall>w. P w \<longrightarrow> (case m w of Inl e \<Rightarrow> E e | Inr (r, w') \<Rightarrow> Q r w'))"

definition starved :: "error \<Rightarrow> bool" where
  "starved e = (e = OutOfDraws)"

definition never :: "error \<Rightarrow> bool" where
  "never e = False"

text \<open>
  A well-formed map: 30 distinct row objects of the store, each of 30 tiles. \<open>row_of\<close>
  and \<open>tile_at\<close> read the store, \<open>upd\<close> is the store after \<^verbatim>\<open>g[y][x] = v\<close>.
\<close>

definition valid :: "grid \<Rightarrow> world \<Rightarrow> bool" where
  "valid g w = (length g = MAP_HEIGHT \<and> distinct g \<and>
                (\<forall>a\<in>set g. a < length (heap w) \<and> length (heap w ! a) = MAP_WIDTH))"

definition row_of :: "world \<Rightarrow> grid \<Rightarrow> nat \<Rightarrow> tile list" where
  "row_of w g y = heap w ! (g ! y)"

definition tile_at :: "world \<Rightarrow> grid \<Rightarrow> nat \<Rightarrow> nat \<Rightarrow> tile" where
  "tile_at w g y x = heap w ! (g ! y) ! x"

definition upd :: "world \<Rightarrow> grid \<Rightarrow> nat \<Rightarrow> nat \<Rightarrow> tile \<Rightarrow> world" where
  "upd w g y x v = w\<lparr>heap := (heap w)[g ! y := (heap w ! (g ! y))[x := v]]\<rparr>"

definition crossover_rows :: "world \<Rightarrow> grid \<Rightarrow> grid \<Rightarrow> nat \<Rightarrow> tile list list" where
  "crossover_rows w a b n =
     map (\<lambda>y. if y < MAP_HEIGHT div 2 then heap w ! (a ! y) else heap w ! (b ! y)) [0..<n]"

definition two_parents :: world where
  "two_parents = \<lparr>heap = replicate 30 (replicate 30 PLAINS) @ replicate 30 (replicate 30 ROCK),
                  tape = []\<rparr>"

text \<open>\<open>writes_only g w0 w\<close>: from \<open>w0\<close> to \<open>w\<close> only rows of the map \<open>g\<close> were written.\<close>

definition writes_only :: "grid \<Rightarrow> world \<Rightarrow> world \<Rightarrow> bool" where
  "writes_only g w0 w =
     (length (heap w) = length (heap w0) \<and>
      (\<forall>a. length (heap w ! a) = length (heap w0 ! a)) \<and>
      (\<forall>a. a \<notin> set g \<longrightarrow> heap w ! a = heap w0 ! a))"

text \<open>
  The regions of the grid: the border, the central circle (radius 8 around (15, 15)) and
  the river band, the three rows around \<open>get_river_row x\<close> in column \<open>x\<close>.
\<close>

definition border :: "nat \<Rightarrow> nat \<Rightarrow> bool" where
  "border y x = (y = 0 \<or> y = MAP_HEIGHT - 1 \<or> x = 0 \<or> x = MAP_WIDTH - 1)"

definition circle :: "nat \<Rightarrow> nat \<Rightarrow> bool" where
  "circle y x = is_in_central_circle (int x) (int y) 15 8"

definition in_band :: "nat \<Rightarrow> nat \<Rightarrow> bool" where
  "in_band y x = (int y = get_river_row x - 1 \<or> int y = get_river_row x
                  \<or> int y = get_river_row x + 1)"

definition enforced :: "nat \<Rightarrow> nat \<Rightarrow> tile \<Rightarrow> tile" where
  "enforced y x old = (if border y x then MOUNTAIN else if circle y x then PLAINS else old)"

text \<open>
  Runs that return are exhibited on a random source that yields the same number \<open>c\<close> at
  every draw: \<open>fed E c k t\<close> says that the tape \<open>t\<close> holds at least \<open>k\<close> draws, all \<open>c\<close>, and
  \<open>known E A\<close> that \<open>A\<close> holds on such a source; both say nothing when \<open>E\<close> allows the
  exhaustion of the source. On such a source every cluster of \<open>place_rocks\<close> is seeded at
  \<open>(seed_of c, seed_of c)\<close> and aims at \<open>(target_of c, target_of c)\<close>, and
  \<open>generate_random_map\<close> builds the map \<open>generated c\<close>.
\<close>

definition fed :: "(error \<Rightarrow> bool) \<Rightarrow> nat \<Rightarrow> nat \<Rightarrow> nat list \<Rightarrow> bool" where
  "fed E c k t = (E OutOfDraws \<or> (\<exists>n\<ge>k. t = replicate n c))"

definition known :: "(error \<Rightarrow> bool) \<Rightarrow> bool \<Rightarrow> bool" where
  "known E A = (E OutOfDraws \<or> A)"

definition seed_of :: "nat \<Rightarrow> nat" where
  "seed_of c = 5 + c mod 21"

definition outcome ::
  "(error \<Rightarrow> bool) \<Rightarrow> ('a \<Rightarrow> world \<Rightarrow> bool) \<Rightarrow> error + ('a \<times> world) \<Rightarrow> bool" where
  "outcome E Q r = (case r of Inl e \<Rightarrow> E e | Inr (x, w) \<Rightarrow> Q x w)"

text \<open>The number of Rock cells of a map, and what \<open>place_rocks\<close> may change.\<close>

definition rock_cells :: "world \<Rightarrow> grid \<Rightarrow> nat" where
  "rock_cells w g = card {(y, x). y < MAP_HEIGHT \<and> x < MAP_WIDTH \<and> tile_at w g y x = ROCK}"

definition only_rocks_added :: "grid \<Rightarrow> world \<Rightarrow> world \<Rightarrow> bool" where
  "only_rocks_added g w0 w =
     (\<forall>y<MAP_HEIGHT. \<forall>x<MAP_WIDTH.
        tile_at w g y x = tile_at w0 g y x \<or>
        (tile_at w0 g y x = PLAINS \<and> tile_at w g y x = ROCK
           \<and> 0 < y \<and> y < MAP_HEIGHT - 1 \<and> 0 < x \<and> x < MAP_WIDTH - 1))"

definition target_of :: "nat \<Rightarrow> nat" where
  "target_of c = seed_of c + c mod 3 - 1"

definition generated :: "nat \<Rightarrow> nat \<Rightarrow> nat \<Rightarrow> tile" where
  "generated c y x = (if border y x then MOUNTAIN else tile_of_int (int c mod 4))"

text \<open>\<open>fresh_map w0 w g\<close>: the map \<open>g\<close> consists of 30 rows allocated since \<open>w0\<close>.\<close>

definition fresh_map :: "world \<Rightarrow> world \<Rightarrow> grid \<Rightarrow> bool" where
  "fresh_map w0 w g =
     (g = [length (heap w0)..<length (heap w0) + MAP_HEIGHT] \<and>
      (\<exists>rows. heap w = heap w0 @ rows \<and> length rows = MAP_HEIGHT
               \<and> (\<forall>r\<in>set rows. length r = MAP_WIDTH)))"

text \<open>
  What \<open>enforce_constraints\<close> followed by \<open>place_river\<close> makes of a tile, and the state of
  a map after a pass: after \<open>new_individual\<close>, or after \<open>mutate\<close> on a well-formed map.
\<close>

definition shaped :: "nat \<Rightarrow> nat \<Rightarrow> tile \<Rightarrow> tile" where
  "shaped y x t = (if in_band y x then RIVER else if border y x then MOUNTAIN
                   else if circle y x then PLAINS else t)"

definition constrained :: "world \<Rightarrow> grid \<Rightarrow> bool" where
  "constrained w g =
     (\<forall>y<MAP_HEIGHT. \<forall>x<MAP_WIDTH.
        (in_band y x \<longrightarrow> tile_at w g y x = RIVER) \<and>
        (\<not> in_band y x \<and> border y x \<longrightarrow> tile_at w g y x = MOUNTAIN) \<and>
        (\<not> in_band y x \<and> \<not> border y x \<and> circle y x
           \<longrightarrow> tile_at w g y x = PLAINS \<or> tile_at w g y x = ROCK))"

definition after_pass :: "world \<Rightarrow> grid \<Rightarrow> world \<Rightarrow> bool" where
  "after_pass w0 g w =
     (new_individual w0 = Inr (g, w) \<or> (valid g w0 \<and> mutate g w0 = Inr (g, w)))"

text \<open>The value a computation returns, without the store; example stores.\<close>

definition returned :: "error + ('a \<times> world) \<Rightarrow> error + 'a" where
  "returned r = (case r of Inl e \<Rightarrow> Inl e | Inr (x, w) \<Rightarrow> Inr x)"

definition fives :: world where
  "fives = \<lparr>heap = [], tape = replicate 2908 5\<rparr>"

definition sixes :: world where
  "sixes = \<lparr>heap = [], tape = replicate 1004 6\<rparr>"

text \<open>The four terms of the fitness, as sums over the cells and the columns.\<close>

definition central_term :: "world \<Rightarrow> grid \<Rightarrow> int" where
  "central_term w g =
     (\<Sum>y<MAP_HEIGHT. \<Sum>x<MAP_WIDTH.
        if is_in_central_circle (int x) (int y) 15 8
        then (if tile_at w g y x = PLAINS then 1 else - 1) else 0)"

definition mountain_term :: "world \<Rightarrow> grid \<Rightarrow> int" where
  "mountain_term w g =
     (\<Sum>x<MAP_WIDTH. \<Sum>y<MAP_HEIGHT.
        if tile_at w g y x = MOUNTAIN
        then (if is_in_central_circle (int x) (int y) 15 13 then - 10 else 5) else 0)"

definition river_term :: "world \<Rightarrow> grid \<Rightarrow> int" where
  "river_term w g =
     (\<Sum>x<MAP_WIDTH.
        if (\<exists>y<MAP_HEIGHT. in_band y x \<and> tile_at w g y x = RIVER) then 50 else - 500)"

definition rock_term :: "world \<Rightarrow> grid \<Rightarrow> int" where
  "rock_term w g =
     (let rock_count = int (rock_cells w g)
      in if 20 \<le> rock_count \<and> rock_count \<le> 40 then 50 else - \<bar>rock_count - 22\<bar>)"

definition score :: "world \<Rightarrow> grid \<Rightarrow> int" where
  "score w g = central_term w g + mountain_term w g + river_term w g + rock_term w g"

definition plains_world :: world where
  "plains_world = \<lparr>heap = replicate 30 (replicate 30 PLAINS), tape = []\<rparr>"

text \<open>
  \<open>extends w0 w\<close>: from \<open>w0\<close> to \<open>w\<close> rows were allocated and no existing row was written.
  A source that yields \<open>c\<close> at every draw is \<open>quiet\<close> when the mutation sweep never hits,
  the generated tile is Mountain or River and the cluster seed lies in the circle; then
  the cell (2, 2) of every map of the population holds the generated tile (\<open>marked\<close>).
\<close>

definition cleared :: "tile \<Rightarrow> tile" where
  "cleared t = (if t = ROCK then PLAINS else t)"

definition extends :: "world \<Rightarrow> world \<Rightarrow> bool" where
  "extends w0 w = (\<exists>rows. heap w = heap w0 @ rows)"

definition valid_pop :: "grid list \<Rightarrow> world \<Rightarrow> bool" where
  "valid_pop population w = (\<forall>g\<in>set population. valid g w)"

definition marked :: "nat \<Rightarrow> world \<Rightarrow> grid \<Rightarrow> bool" where
  "marked c w g = (tile_at w g 2 2 = tile_of_int (int c mod 4))"

definition quiet :: "nat \<Rightarrow> bool" where
  "quiet c = (\<not> c mod 100 < 3 \<and> (c mod 4 = 1 \<or> c mod 4 = 2)
              \<and> circle (seed_of c) (seed_of c))"

definition steady :: "nat \<Rightarrow> world" where
  "steady c = \<lparr>heap = [], tape = replicate 20000000 c\<rparr>"

text \<open>
  \<open>more_draws u w\<close>: the store \<open>w\<close> with the draws \<open>u\<close> appended to its random source.
  \<open>prefix_run m w\<close>: if \<open>m\<close> returns from \<open>w\<close>, it returns the same value from the store
  with more draws, and leaves them unread.
\<close>

definition more_draws :: "nat list \<Rightarrow> world \<Rightarrow> world" where
  "more_draws u w = w\<lparr>tape := tape w @ u\<rparr>"

definition prefix_run :: "'a prog \<Rightarrow> world \<Rightarrow> bool" where
  "prefix_run m w =
     (\<forall>x w' u. m w = Inr (x, w') \<longrightarrow> m (more_draws u w) = Inr (x, more_draws u w'))"

named_theorems prefix_intros

section \<open>Reasoning about programs\<close>

lemma hoareI:
  "(\<And>w. P w \<Longrightarrow> (case m w of Inl e \<Rightarrow> E e | Inr (r, w') \<Rightarrow> Q r w')) \<Longrightarrow> hoare E P m Q"
  by (simp add: hoare_def)

lemma hoareD: "hoare E P m Q \<Longrightarrow> P w \<Longrightarrow> m w = Inr (r, w') \<Longrightarrow> Q r w'"
  by (auto simp: hoare_def split: sum.splits)

lemma hoare_errorD: "hoare E P m Q \<Longrightarrow> P w \<Longrightarrow> m w = Inl e \<Longrightarrow> E e"
  by (auto simp: hoare_def split: sum.splits)

lemma hoare_returns:
  "hoare never P m Q \<Longrightarrow> P w \<Longrightarrow> \<exists>r w'. m w = Inr (r, w') \<and> Q r w'"
  by (cases "m w") (auto simp: hoare_def never_def split: sum.splits)

lemma hoare_weaken:
  "hoare E P m Q \<Longrightarrow> (\<And>w. P' w \<Longrightarrow> P w) \<Longrightarrow> (\<And>r w. Q r w \<Longrightarrow> Q' r w)
     \<Longrightarrow> (\<And>e. E e \<Longrightarrow> E' e) \<Longrightarrow> hoare E' P' m Q'"
  unfolding hoare_def by (fastforce split: sum.splits)

lemma hoare_pre: "hoare E P m Q \<Longrightarrow> (\<And>w. P' w \<Longrightarrow> P w) \<Longrightarrow> hoare E P' m Q"
  by (erule hoare_weaken) auto

lemma hoare_post: "hoare E P m Q \<Longrightarrow> (\<And>r w. Q r w \<Longrightarrow> Q' r w) \<Longrightarrow> hoare E P m Q'"
  by (erule hoare_weaken) auto

lemma hoare_conj:
  "hoare E P m Q \<Longrightarrow> hoare E P' m Q'
     \<Longrightarrow> hoare E (\<lambda>w. P w \<and> P' w) m (\<lambda>r w. Q r w \<and> Q' r w)"
  unfolding hoare_def by (fastforce split: sum.splits)

lemma hoare_ret: "hoare E (Q x) (ret x) Q"
  by (simp add: hoare_def ret_def)

lemma hoare_ret': "(\<And>w. P w \<Longrightarrow> Q x w) \<Longrightarrow> hoare E P (ret x) Q"
  by (simp add: hoare_def ret_def)

lemma hoare_bnd:
  "hoare E P m R \<Longrightarrow> (\<And>x. hoare E (R x) (f x) Q) \<Longrightarrow> hoare E P (bnd m f) Q"
  unfolding hoare_def bnd_def by (fastforce split: sum.splits)

lemma hoare_seq:
  "hoare E P m (\<lambda>_. R) \<Longrightarrow> hoare E R n Q \<Longrightarrow> hoare E P (seq m n) Q"
  unfolding seq_def by (rule hoare_bnd)

lemma hoare_if:
  "(b \<Longrightarrow> hoare E P m Q) \<Longrightarrow> (\<not> b \<Longrightarrow> hoare E P n Q) \<Longrightarrow> hoare E P (if b then m else n) Q"
  by simp

lemma hoare_gen_pre: "(\<And>w. P w \<Longrightarrow> A) \<Longrightarrow> (A \<Longrightarrow> hoare E P m Q) \<Longrightarrow> hoare E P m Q"
  unfolding hoare_def by blast

lemma bnd_ret [simp]: "bnd (ret x) f = f x"
  by (rule ext) (simp add: bnd_def ret_def)

lemma bnd_assoc: "bnd (bnd m f) g = bnd m (\<lambda>x. bnd (f x) g)"
  by (rule ext) (simp add: bnd_def split: sum.splits prod.splits)

lemma for_loop_snoc:
  "for_loop (xs @ [x]) body acc = bnd (for_loop xs body acc) (body x)"
proof (induction xs arbitrary: acc)
  case Nil
  show ?case by (rule ext) (simp add: bnd_def ret_def split: sum.splits)
next
  case (Cons y ys)
  have "for_loop (ys @ [x]) body = (\<lambda>a. bnd (for_loop ys body a) (body x))"
    by (rule ext) (rule Cons.IH)
  then show ?case by (simp add: bnd_assoc)
qed

text \<open>The loop rule: \<open>I i acc\<close> holds before round \<open>i\<close>.\<close>

lemma hoare_for_loop:
  assumes "\<And>i acc. i < length xs \<Longrightarrow> hoare E (I i acc) (body (xs ! i) acc) (I (Suc i))"
  shows "hoare E (I 0 acc) (for_loop xs body acc) (I (length xs))"
  using assms
proof (induction xs rule: rev_induct)
  case Nil
  show ?case by (simp add: hoare_ret)
next
  case (snoc x xs)
  have step: "hoare E (I i acc) (body (xs ! i) acc) (I (Suc i))" if "i < length xs" for i acc
    using snoc.prems [of i acc] that by (simp add: nth_append)
  have final: "hoare E (I (length xs) acc) (body x acc) (I (length (xs @ [x])))" for acc
    using snoc.prems [of "length xs" acc] by simp
  have ih: "hoare E (I 0 acc) (for_loop xs body acc) (I (length xs))"
    by (rule snoc.IH) (rule step)
  show ?case
    unfolding for_loop_snoc
    by (rule hoare_bnd [OF ih]) (rule final)
qed

lemma hoare_for_upt:
  assumes "\<And>i acc. i < n \<Longrightarrow> hoare E (I i acc) (body i acc) (I (Suc i))"
  shows "hoare E (I 0 acc) (for_loop [0..<n] body acc) (I n)"
  using hoare_for_loop [of "[0..<n]" E I body acc] assms by simp

lemma hoare_for_each:
  assumes "\<And>i. i < length xs \<Longrightarrow> hoare E (I i) (body (xs ! i)) (\<lambda>_. I (Suc i))"
  shows "hoare E (I 0) (for_each xs body) (\<lambda>_. I (length xs))"
  unfolding for_each_def
  using hoare_for_loop [of xs E "\<lambda>i _. I i" "\<lambda>x _. body x" "()"] assms by simp

lemma hoare_for_each_upt:
  assumes "\<And>i. i < n \<Longrightarrow> hoare E (I i) (body i) (\<lambda>_. I (Suc i))"
  shows "hoare E (I 0) (for_each [0..<n] body) (\<lambda>_. I n)"
  using hoare_for_each [of "[0..<n]" E I body] assms by simp

text \<open>A loop whose rounds all keep \<open>I\<close>.\<close>

lemma hoare_for_each_inv:
  assumes "\<And>x. x \<in> set xs \<Longrightarrow> hoare E I (body x) (\<lambda>_. I)"
  shows "hoare E I (for_each xs body) (\<lambda>_. I)"
  using hoare_for_each [of xs E "\<lambda>_. I" body] assms by simp

lemma outcome_Inl [simp]: "outcome E Q (Inl e) = E e"
  by (simp add: outcome_def)

lemma outcome_Inr [simp]: "outcome E Q (Inr (x, w)) = Q x w"
  by (simp add: outcome_def)

lemma hoare_outcome: "hoare E P m Q = (\<forall>w. P w \<longrightarrow> outcome E Q (m w))"
  by (simp add: hoare_def outcome_def)

lemma outcome_mono:
  "outcome E Q r \<Longrightarrow> (\<And>x w. Q x w \<Longrightarrow> Q' x w) \<Longrightarrow> outcome E Q' r"
  by (auto simp: outcome_def split: sum.splits)

lemma outcome_bnd: "outcome E Q (bnd m f w) = outcome E (\<lambda>x w'. outcome E Q (f x w')) (m w)"
  by (auto simp: outcome_def bnd_def split: sum.splits)

lemma outcome_hoare: "hoare E P m Q \<Longrightarrow> P w \<Longrightarrow> outcome E Q (m w)"
  by (simp add: hoare_outcome)

section \<open>Well-formed maps\<close>

lemma valid_nth: "valid g w \<Longrightarrow> y < 30 \<Longrightarrow> g ! y < length (heap w) \<and> length (heap w ! (g ! y)) = 30"
  by (simp add: valid_def)

lemma py_index_nat [simp]: "i < n \<Longrightarrow> py_index n (int i) = ret i"
  by (simp add: py_index_def)

lemma py_index_in_range: "0 \<le> i \<Longrightarrow> i < int n \<Longrightarrow> py_index n i = ret (nat i)"
  by (simp add: py_index_def)

lemma cell_valid:
  "valid g w \<Longrightarrow> 0 \<le> y \<Longrightarrow> y < 30 \<Longrightarrow> 0 \<le> x \<Longrightarrow> x < 30
     \<Longrightarrow> cell g y x w = Inr (tile_at w g (nat y) (nat x), w)"
  by (simp add: cell_def valid_def py_index_in_range bnd_def ret_def read_row_def tile_at_def)

lemma put_valid:
  "valid g w \<Longrightarrow> 0 \<le> y \<Longrightarrow> y < 30 \<Longrightarrow> 0 \<le> x \<Longrightarrow> x < 30
     \<Longrightarrow> put g y x v w = Inr ((), upd w g (nat y) (nat x) v)"
  by (simp add: put_def valid_def py_index_in_range bnd_def ret_def read_row_def
                write_row_def upd_def)

lemma length_row_update:
  "length (hs[i := (hs ! i)[x := v]] ! a) = length (hs ! a)"
  by (cases "i < length hs") (auto simp: nth_list_update list_update_beyond)

lemma valid_upd [simp]: "valid g' (upd w g y x v) = valid g' w"
  by (simp add: valid_def upd_def length_row_update)

lemma tape_upd [simp]: "tape (upd w g y x v) = tape w"
  by (simp add: upd_def)

lemma length_heap_upd [simp]: "length (heap (upd w g y x v)) = length (heap w)"
  by (simp add: upd_def)

lemma tile_at_upd:
  "valid g w \<Longrightarrow> y < 30 \<Longrightarrow> x < 30 \<Longrightarrow> y' < 30
     \<Longrightarrow> tile_at (upd w g y x v) g y' x' = (if y' = y \<and> x' = x then v else tile_at w g y' x')"
  by (auto simp: valid_def upd_def tile_at_def nth_list_update nth_eq_iff_index_eq)

lemma heap_upd_other: "a \<noteq> g ! y \<Longrightarrow> heap (upd w g y x v) ! a = heap w ! a"
  by (simp add: upd_def)

subsection \<open>crossover\<close>

lemma copy_row_valid:
  "y < length m \<Longrightarrow> copy_row m (int y) w
     = Inr (length (heap w), w\<lparr>heap := heap w @ [heap w ! (m ! y)]\<rparr>)"
  by (simp add: copy_row_def bnd_def read_row_def alloc_def)

lemma hoare_crossover:
  assumes a: "valid a w0" and b: "valid b w0"
  shows "hoare E (\<lambda>w. w = w0) (crossover a b)
           (\<lambda>child w. w = w0\<lparr>heap := heap w0 @ crossover_rows w0 a b 30\<rparr>
                     \<and> child = [length (heap w0)..<length (heap w0) + 30])"
proof -
  define I where "I i child w \<longleftrightarrow>
      w = w0\<lparr>heap := heap w0 @ crossover_rows w0 a b i\<rparr>
      \<and> child = [length (heap w0)..<length (heap w0) + i]" for i child w
  have step: "hoare E (I i child)
       (if i < 30 div 2 then bnd (copy_row a (int i)) (\<lambda>r. ret (child @ [r]))
        else bnd (copy_row b (int i)) (\<lambda>r. ret (child @ [r]))) (I (Suc i))"
    if "i < 30" for i child
  proof (rule hoareI)
    fix w assume "I i child w"
    then have w: "w = w0\<lparr>heap := heap w0 @ crossover_rows w0 a b i\<rparr>"
      and c: "child = [length (heap w0)..<length (heap w0) + i]"
      by (simp_all add: I_def)
    have la: "length a = 30" "length b = 30" using a b by (simp_all add: valid_def)
    have ina: "a ! i < length (heap w0)" "b ! i < length (heap w0)"
      using valid_nth [OF a that] valid_nth [OF b that] by simp_all
    show "case (if i < 30 div 2 then bnd (copy_row a (int i)) (\<lambda>r. ret (child @ [r]))
        else bnd (copy_row b (int i)) (\<lambda>r. ret (child @ [r]))) w of
          Inl e \<Rightarrow> E e | Inr (r, w') \<Rightarrow> I (Suc i) r w'"
      using that la ina
      by (simp add: bnd_def copy_row_valid ret_def I_def w c crossover_rows_def nth_append)
  qed
  have "hoare E (I 0 []) (crossover a b) (I 30)"
    unfolding crossover_def Let_def
    by (rule hoare_for_upt) (rule step)
  then show ?thesis
    by (rule hoare_weaken) (simp_all add: I_def crossover_rows_def)
qed

lemma crossover_eq:
  assumes "valid a w" "valid b w"
  shows "crossover a b w = Inr ([length (heap w)..<length (heap w) + 30],
                               w\<lparr>heap := heap w @ crossover_rows w a b 30\<rparr>)"
proof -
  from hoare_returns [OF hoare_crossover [OF assms, of never], of w]
  show ?thesis by auto
qed

lemma valid_crossover:
  assumes "valid a w" "valid b w"
  shows "valid [length (heap w)..<length (heap w) + 30]
           (w\<lparr>heap := heap w @ crossover_rows w a b 30\<rparr>)"
  using assms
  by (auto simp: valid_def crossover_rows_def nth_append)


subsection \<open>Writes into a map\<close>

lemma writes_only_refl [simp]: "writes_only g w w"
  by (simp add: writes_only_def)

lemma writes_only_trans:
  "writes_only g w0 w1 \<Longrightarrow> writes_only g w1 w2 \<Longrightarrow> writes_only g w0 w2"
  by (simp add: writes_only_def)

lemma writes_only_heap: "heap w = heap w' \<Longrightarrow> writes_only g w0 w = writes_only g w0 w'"
  by (simp add: writes_only_def)

lemma writes_only_upd:
  "y < length g \<Longrightarrow> writes_only g w0 w \<Longrightarrow> writes_only g w0 (upd w g y x v)"
proof -
  assume y: "y < length g" and wo: "writes_only g w0 w"
  have "g ! y \<noteq> a" if "a \<notin> set g" for a
    using that y nth_mem by blast
  then show ?thesis
    using wo by (simp add: writes_only_def upd_def length_row_update)
qed

lemma writes_only_valid: "writes_only g w0 w \<Longrightarrow> valid g' w0 \<Longrightarrow> valid g' w"
  by (simp add: writes_only_def valid_def)

lemma valid_heap: "heap w = heap w' \<Longrightarrow> valid g w = valid g w'"
  by (simp add: valid_def)

lemma tile_at_heap: "heap w = heap w' \<Longrightarrow> tile_at w g y x = tile_at w' g y x"
  by (simp add: tile_at_def)

lemma upd_same: "heap (upd w g y x (tile_at w g y x)) = heap w"
  by (simp add: upd_def tile_at_def)

lemma cell_nat:
  "valid g w \<Longrightarrow> y < 30 \<Longrightarrow> x < 30 \<Longrightarrow> cell g (int y) (int x) w = Inr (tile_at w g y x, w)"
  by (simp add: cell_valid)

lemma put_nat:
  "valid g w \<Longrightarrow> y < 30 \<Longrightarrow> x < 30 \<Longrightarrow> put g (int y) (int x) v w = Inr ((), upd w g y x v)"
  by (simp add: put_valid)

text \<open>
  A sweep over all cells whose round at \<open>(y, x)\<close> writes at most that cell: afterwards
  every cell is related by \<open>R\<close> to what it held before. \<open>S\<close> follows the random source.
\<close>

lemma hoare_cells:
  assumes body: "\<And>y x w1. y < 30 \<Longrightarrow> x < 30 \<Longrightarrow>
     hoare E (\<lambda>w. w = w1 \<and> valid g w1 \<and> S (30 * y + x) (tape w1)) (body y x)
       (\<lambda>_ w. \<exists>v. heap w = heap (upd w1 g y x v) \<and> R y x (tile_at w1 g y x) v
                 \<and> S (Suc (30 * y + x)) (tape w))"
  shows "hoare E (\<lambda>w. w = w0 \<and> valid g w0 \<and> S 0 (tape w0))
     (for_each [0..<30] (\<lambda>y. for_each [0..<30] (\<lambda>x. body y x)))
     (\<lambda>_ w. valid g w \<and> writes_only g w0 w \<and> S 900 (tape w)
        \<and> (\<forall>y<30. \<forall>x<30. R y x (tile_at w0 g y x) (tile_at w g y x)))"
proof -
  define J where "J i j w \<longleftrightarrow> valid g w \<and> writes_only g w0 w \<and> S (30 * i + j) (tape w)
     \<and> (\<forall>y<30. \<forall>x<30. if y < i \<or> (y = i \<and> x < j)
                        then R y x (tile_at w0 g y x) (tile_at w g y x)
                        else tile_at w g y x = tile_at w0 g y x)" for i j w
  have cell_step: "hoare E (J i j) (body i j) (\<lambda>_. J i (Suc j))" if "i < 30" "j < 30" for i j
  proof (rule hoareI)
    fix w1 assume J: "J i j w1"
    then have v1: "valid g w1" and wo: "writes_only g w0 w1"
      and s: "S (30 * i + j) (tape w1)" by (simp_all add: J_def)
    have lg: "i < length g" using v1 that by (simp add: valid_def)
    have old: "tile_at w1 g i j = tile_at w0 g i j"
      using J that by (auto simp: J_def)
    show "case body i j w1 of Inl e \<Rightarrow> E e | Inr (r, w') \<Rightarrow> J i (Suc j) w'"
    proof (cases "body i j w1")
      case (Inl e)
      then show ?thesis using hoare_errorD [OF body [OF that], of w1 w1 e] v1 s by simp
    next
      case (Inr p)
      obtain r w' where p: "p = (r, w')" by (cases p)
      from hoareD [OF body [OF that], of w1 w1 r w'] Inr p v1 s
      obtain v where h: "heap w' = heap (upd w1 g i j v)"
        and R: "R i j (tile_at w1 g i j) v" and s': "S (Suc (30 * i + j)) (tape w')"
        by auto
      have "valid g w'" using v1 by (simp add: valid_heap [OF h])
      moreover have "writes_only g w0 w'"
        using writes_only_upd [OF lg wo] by (simp add: writes_only_heap [OF h])
      moreover have "\<forall>y<30. \<forall>x<30. if y < i \<or> (y = i \<and> x < Suc j)
                        then R y x (tile_at w0 g y x) (tile_at w' g y x)
                        else tile_at w' g y x = tile_at w0 g y x"
        using J R old that v1
        by (auto simp: J_def tile_at_heap [OF h] tile_at_upd less_Suc_eq)
      ultimately show ?thesis using Inr p s' by (simp add: J_def)
    qed
  qed
  have row: "hoare E (J i 0) (for_each [0..<30] (\<lambda>x. body i x)) (\<lambda>_. J (Suc i) 0)"
    if "i < 30" for i
  proof -
    have "hoare E (J i 0) (for_each [0..<30] (\<lambda>x. body i x)) (\<lambda>_. J i 30)"
      by (rule hoare_for_each_upt) (rule cell_step [OF that])
    moreover have "J i 30 w \<Longrightarrow> J (Suc i) 0 w" for w
      by (auto simp: J_def less_Suc_eq add.commute)
    ultimately show ?thesis by (rule hoare_post)
  qed
  have "hoare E (J 0 0) (for_each [0..<30] (\<lambda>y. for_each [0..<30] (\<lambda>x. body y x)))
          (\<lambda>_. J 30 0)"
    by (rule hoare_for_each_upt) (rule row)
  then show ?thesis
    by (rule hoare_weaken) (auto simp: J_def)
qed

subsection \<open>enforce_constraints\<close>

lemma hoare_circle_sweep:
  "hoare E (\<lambda>w. w = w0 \<and> valid g w0)
     (for_each [0..<30] (\<lambda>y. for_each [0..<30] (\<lambda>x.
        if is_in_central_circle (int x) (int y) 15 8
        then put g (int y) (int x) PLAINS else ret ())))
     (\<lambda>_ w. valid g w \<and> writes_only g w0 w \<and> tape w = tape w0
        \<and> (\<forall>y<30. \<forall>x<30. tile_at w g y x = (if circle y x then PLAINS else tile_at w0 g y x)))"
proof -
  have "hoare E (\<lambda>w. w = w0 \<and> valid g w0 \<and> (\<lambda>n t. t = tape w0) 0 (tape w0))
     (for_each [0..<30] (\<lambda>y. for_each [0..<30] (\<lambda>x.
        if is_in_central_circle (int x) (int y) 15 8
        then put g (int y) (int x) PLAINS else ret ())))
     (\<lambda>_ w. valid g w \<and> writes_only g w0 w \<and> (\<lambda>n t. t = tape w0) 900 (tape w)
        \<and> (\<forall>y<30. \<forall>x<30. (\<lambda>y x old v. v = (if circle y x then PLAINS else old))
               y x (tile_at w0 g y x) (tile_at w g y x)))"
  proof (rule hoare_cells, rule hoareI)
    fix y x :: nat and w1 w
    assume "y < 30" "x < 30" and "w = w1 \<and> valid g w1 \<and> tape w1 = tape w0"
    then show "case (if is_in_central_circle (int x) (int y) 15 8
                     then put g (int y) (int x) PLAINS else ret ()) w of
                 Inl e \<Rightarrow> E e
               | Inr (r, w') \<Rightarrow> \<exists>v. heap w' = heap (upd w1 g y x v)
                    \<and> v = (if circle y x then PLAINS else tile_at w1 g y x)
                    \<and> tape w' = tape w0"
      by (simp add: put_nat ret_def circle_def upd_same)
  qed
  then show ?thesis by simp
qed

lemma hoare_border_rows:
  "hoare E (\<lambda>w. w = w0 \<and> valid g w0)
     (for_each [0..<30] (\<lambda>x.
        seq (put g 0 (int x) MOUNTAIN) (put g (int MAP_HEIGHT - 1) (int x) MOUNTAIN)))
     (\<lambda>_ w. valid g w \<and> writes_only g w0 w \<and> tape w = tape w0
        \<and> (\<forall>y<30. \<forall>x<30. tile_at w g y x
              = (if y = 0 \<or> y = 29 then MOUNTAIN else tile_at w0 g y x)))"
proof -
  define I where "I i w \<longleftrightarrow> valid g w \<and> writes_only g w0 w \<and> tape w = tape w0
     \<and> (\<forall>y<30. \<forall>x<30. tile_at w g y x
           = (if (y = 0 \<or> y = 29) \<and> x < i then MOUNTAIN else tile_at w0 g y x))" for i w
  have step: "hoare E (I i)
     (seq (put g 0 (int i) MOUNTAIN) (put g (int MAP_HEIGHT - 1) (int i) MOUNTAIN))
     (\<lambda>_. I (Suc i))" if "i < 30" for i
  proof (rule hoareI)
    fix w assume I: "I i w"
    then have v: "valid g w" by (simp add: I_def)
    then have lg: "0 < length g" "29 < length g" by (simp_all add: valid_def)
    let ?w' = "upd (upd w g 0 i MOUNTAIN) g 29 i MOUNTAIN"
    have run: "seq (put g 0 (int i) MOUNTAIN) (put g (int MAP_HEIGHT - 1) (int i) MOUNTAIN) w
                 = Inr ((), ?w')"
      using v that put_valid [of g w 0 "int i" MOUNTAIN]
        put_valid [of g "upd w g 0 i MOUNTAIN" 29 "int i" MOUNTAIN]
      by (simp add: seq_def bnd_def)
    have "writes_only g w0 ?w'"
      using I lg by (simp add: I_def writes_only_upd)
    moreover have "\<forall>y<30. \<forall>x<30. tile_at ?w' g y x
           = (if (y = 0 \<or> y = 29) \<and> x < Suc i then MOUNTAIN else tile_at w0 g y x)"
      using I v that by (auto simp: I_def tile_at_upd less_Suc_eq)
    ultimately show "case seq (put g 0 (int i) MOUNTAIN)
                      (put g (int MAP_HEIGHT - 1) (int i) MOUNTAIN) w of
            Inl e \<Rightarrow> E e | Inr (r, w') \<Rightarrow> I (Suc i) w'"
      unfolding run using I v by (simp add: I_def)
  qed
  have "hoare E (I 0) (for_each [0..<30] (\<lambda>x.
        seq (put g 0 (int x) MOUNTAIN) (put g (int MAP_HEIGHT - 1) (int x) MOUNTAIN)))
        (\<lambda>_. I 30)"
    by (rule hoare_for_each_upt) (rule step)
  then show ?thesis
    by (rule hoare_weaken) (auto simp: I_def)
qed

lemma hoare_border_columns:
  "hoare E (\<lambda>w. w = w0 \<and> valid g w0)
     (for_each [0..<30] (\<lambda>y.
        seq (put g (int y) 0 MOUNTAIN) (put g (int y) (int MAP_WIDTH - 1) MOUNTAIN)))
     (\<lambda>_ w. valid g w \<and> writes_only g w0 w \<and> tape w = tape w0
        \<and> (\<forall>y<30. \<forall>x<30. tile_at w g y x
              = (if x = 0 \<or> x = 29 then MOUNTAIN else tile_at w0 g y x)))"
proof -
  define I where "I i w \<longleftrightarrow> valid g w \<and> writes_only g w0 w \<and> tape w = tape w0
     \<and> (\<forall>y<30. \<forall>x<30. tile_at w g y x
           = (if (x = 0 \<or> x = 29) \<and> y < i then MOUNTAIN else tile_at w0 g y x))" for i w
  have step: "hoare E (I i)
     (seq (put g (int i) 0 MOUNTAIN) (put g (int i) (int MAP_WIDTH - 1) MOUNTAIN))
     (\<lambda>_. I (Suc i))" if "i < 30" for i
  proof (rule hoareI)
    fix w assume I: "I i w"
    then have v: "valid g w" by (simp add: I_def)
    then have lg: "i < length g" using that by (simp add: valid_def)
    let ?w' = "upd (upd w g i 0 MOUNTAIN) g i 29 MOUNTAIN"
    have run: "seq (put g (int i) 0 MOUNTAIN) (put g (int i) (int MAP_WIDTH - 1) MOUNTAIN) w
                 = Inr ((), ?w')"
      using v that put_valid [of g w "int i" 0 MOUNTAIN]
        put_valid [of g "upd w g i 0 MOUNTAIN" "int i" 29 MOUNTAIN]
      by (simp add: seq_def bnd_def)
    have "writes_only g w0 ?w'"
      using I lg by (simp add: I_def writes_only_upd)
    moreover have "\<forall>y<30. \<forall>x<30. tile_at ?w' g y x
           = (if (x = 0 \<or> x = 29) \<and> y < Suc i then MOUNTAIN else tile_at w0 g y x)"
      using I v that by (auto simp: I_def tile_at_upd less_Suc_eq)
    ultimately show "case seq (put g (int i) 0 MOUNTAIN)
                      (put g (int i) (int MAP_WIDTH - 1) MOUNTAIN) w of
            Inl e \<Rightarrow> E e | Inr (r, w') \<Rightarrow> I (Suc i) w'"
      unfolding run using I v by (simp add: I_def)
  qed
  have "hoare E (I 0) (for_each [0..<30] (\<lambda>y.
        seq (put g (int y) 0 MOUNTAIN) (put g (int y) (int MAP_WIDTH - 1) MOUNTAIN)))
        (\<lambda>_. I 30)"
    by (rule hoare_for_each_upt) (rule step)
  then show ?thesis
    by (rule hoare_weaken) (auto simp: I_def)
qed

text \<open>Sequencing of steps that are each specified against their own start state.\<close>

lemma hoare_seq_rel:
  assumes m: "\<And>w0. hoare E (\<lambda>w. w = w0 \<and> P w0) m (\<lambda>_ w. A w0 w)"
    and n: "\<And>w1. hoare E (\<lambda>w. w = w1 \<and> P' w1) n (\<lambda>r w. B w1 r w)"
    and link: "\<And>w0 w1. P w0 \<Longrightarrow> A w0 w1 \<Longrightarrow> P' w1"
    and post: "\<And>w0 w1 r w. P w0 \<Longrightarrow> A w0 w1 \<Longrightarrow> B w1 r w \<Longrightarrow> Q w0 r w"
  shows "hoare E (\<lambda>w. w = w0 \<and> P w0) (seq m n) (\<lambda>r w. Q w0 r w)"
proof (rule hoareI)
  fix w assume pre: "w = w0 \<and> P w0"
  show "case seq m n w of Inl e \<Rightarrow> E e | Inr (r, w') \<Rightarrow> Q w0 r w'"
  proof (cases "m w")
    case (Inl e)
    then show ?thesis using hoare_errorD [OF m, of w w e] pre by (simp add: seq_def bnd_def)
  next
    case (Inr p)
    obtain u w1 where p: "p = (u, w1)" by (cases p)
    have A: "A w0 w1" using hoareD [OF m, of w0 w u w1] Inr p pre by simp
    then have P': "P' w1" using link pre by blast
    show ?thesis
    proof (cases "n w1")
      case (Inl e)
      then show ?thesis using hoare_errorD [OF n, of w1 w1 e] P' Inr p
        by (simp add: seq_def bnd_def)
    next
      case (Inr q)
      obtain r w2 where q: "q = (r, w2)" by (cases q)
      have "B w1 r w2" using hoareD [OF n, of w1 w1 r w2] Inr q P' by simp
      then have "Q w0 r w2" using post pre A by blast
      then show ?thesis using \<open>m w = Inr p\<close> p Inr q by (simp add: seq_def bnd_def)
    qed
  qed
qed

lemma hoare_enforce_constraints:
  "hoare E (\<lambda>w. w = w0 \<and> valid g w0) (enforce_constraints g)
     (\<lambda>_ w. valid g w \<and> writes_only g w0 w \<and> tape w = tape w0
        \<and> (\<forall>y<30. \<forall>x<30. tile_at w g y x = enforced y x (tile_at w0 g y x)))"
  unfolding enforce_constraints_def
proof (rule hoare_seq_rel [where P' = "valid g"
      and A = "\<lambda>w0 w. valid g w \<and> writes_only g w0 w \<and> tape w = tape w0
        \<and> (\<forall>y<30. \<forall>x<30. tile_at w g y x = (if circle y x then PLAINS else tile_at w0 g y x))"
      and B = "\<lambda>w1 _ w. valid g w \<and> writes_only g w1 w \<and> tape w = tape w1
        \<and> (\<forall>y<30. \<forall>x<30. tile_at w g y x
              = (if border y x then MOUNTAIN else tile_at w1 g y x))"])
  show "hoare E (\<lambda>w. w = w0 \<and> valid g w0)
     (for_each [0..<30] (\<lambda>y. for_each [0..<30] (\<lambda>x.
        if is_in_central_circle (int x) (int y) 15 8
        then put g (int y) (int x) PLAINS else ret ())))
     (\<lambda>_ w. valid g w \<and> writes_only g w0 w \<and> tape w = tape w0
        \<and> (\<forall>y<30. \<forall>x<30. tile_at w g y x = (if circle y x then PLAINS else tile_at w0 g y x)))"
    for w0 by (rule hoare_circle_sweep)
next
  show "hoare E (\<lambda>w. w = w1 \<and> valid g w1)
     (seq (for_each [0..<30] (\<lambda>x.
        seq (put g 0 (int x) MOUNTAIN) (put g (int MAP_HEIGHT - 1) (int x) MOUNTAIN)))
       (for_each [0..<30] (\<lambda>y.
        seq (put g (int y) 0 MOUNTAIN) (put g (int y) (int MAP_WIDTH - 1) MOUNTAIN))))
     (\<lambda>_ w. valid g w \<and> writes_only g w1 w \<and> tape w = tape w1
        \<and> (\<forall>y<30. \<forall>x<30. tile_at w g y x
              = (if border y x then MOUNTAIN else tile_at w1 g y x)))" for w1
    by (rule hoare_seq_rel [OF hoare_border_rows hoare_border_columns])
       (auto simp: border_def intro: writes_only_trans)
qed (auto simp: enforced_def intro: writes_only_trans)

subsection \<open>place_river, clear_rocks\<close>

lemma river_row_range: "x < 30 \<Longrightarrow> 12 \<le> get_river_row x \<and> get_river_row x \<le> 17"
proof -
  have "\<forall>x\<in>set [0..<30]. 12 \<le> get_river_row x \<and> get_river_row x \<le> 17"
    by code_simp
  then show "x < 30 \<Longrightarrow> 12 \<le> get_river_row x \<and> get_river_row x \<le> 17" by simp
qed

lemma in_band_nat:
  "x < 30 \<Longrightarrow> in_band y x \<longleftrightarrow> y = nat (get_river_row x - 1) \<or> y = nat (get_river_row x)
      \<or> y = nat (get_river_row x + 1)"
  using river_row_range [of x] by (auto simp: in_band_def)

lemma in_band_rows: "x < 30 \<Longrightarrow> in_band y x \<Longrightarrow> 11 \<le> y \<and> y \<le> 18"
  using river_row_range [of x] by (auto simp: in_band_def)

lemma hoare_place_river:
  "hoare E (\<lambda>w. w = w0 \<and> valid g w0) (place_river g)
     (\<lambda>_ w. valid g w \<and> writes_only g w0 w \<and> tape w = tape w0
        \<and> (\<forall>y<30. \<forall>x<30. tile_at w g y x = (if in_band y x then RIVER else tile_at w0 g y x)))"
proof -
  define I where "I i w \<longleftrightarrow> valid g w \<and> writes_only g w0 w \<and> tape w = tape w0
     \<and> (\<forall>y<30. \<forall>x<30. tile_at w g y x
           = (if in_band y x \<and> x < i then RIVER else tile_at w0 g y x))" for i w
  have step: "hoare E (I i)
     (let y_river = get_river_row i in
       for_each [-1, 0, 1] (\<lambda>offset.
         let yy = y_river + offset in
         if 0 < yy \<and> yy < int MAP_HEIGHT - 1
         then put g yy (int i) RIVER
         else ret ()))
     (\<lambda>_. I (Suc i))" if "i < 30" for i
  proof (rule hoareI)
    fix w assume I: "I i w"
    then have v: "valid g w" by (simp add: I_def)
    define r where "r = get_river_row i"
    have r: "12 \<le> r" "r \<le> 17" using river_row_range [OF that] by (simp_all add: r_def)
    have lg: "nat (r - 1) < length g" "nat r < length g" "nat (r + 1) < length g"
      using v r by (simp_all add: valid_def)
    let ?w1 = "upd w g (nat (r - 1)) i RIVER"
    let ?w2 = "upd ?w1 g (nat r) i RIVER"
    let ?w3 = "upd ?w2 g (nat (r + 1)) i RIVER"
    have run: "(let y_river = get_river_row i in
       for_each [-1, 0, 1] (\<lambda>offset.
         let yy = y_river + offset in
         if 0 < yy \<and> yy < int MAP_HEIGHT - 1
         then put g yy (int i) RIVER
         else ret ())) w = Inr ((), ?w3)"
      using v that r put_valid [of g w "r - 1" "int i" RIVER]
        put_valid [of g ?w1 r "int i" RIVER] put_valid [of g ?w2 "r + 1" "int i" RIVER]
      by (simp add: for_each_def bnd_def ret_def Let_def r_def [symmetric])
    have "writes_only g w0 ?w3"
      using I lg by (simp add: I_def writes_only_upd)
    moreover have "\<forall>y<30. \<forall>x<30. tile_at ?w3 g y x
           = (if in_band y x \<and> x < Suc i then RIVER else tile_at w0 g y x)"
      using I v that r
      by (auto simp: I_def tile_at_upd less_Suc_eq in_band_nat r_def [symmetric])
    ultimately show "case (let y_river = get_river_row i in
       for_each [-1, 0, 1] (\<lambda>offset.
         let yy = y_river + offset in
         if 0 < yy \<and> yy < int MAP_HEIGHT - 1
         then put g yy (int i) RIVER
         else ret ())) w of
            Inl e \<Rightarrow> E e | Inr (r, w') \<Rightarrow> I (Suc i) w'"
      unfolding run using I v by (simp add: I_def)
  qed
  have "hoare E (I 0) (place_river g) (\<lambda>_. I 30)"
    unfolding place_river_def
    by (rule hoare_for_each_upt) (rule step)
  then show ?thesis
    by (rule hoare_weaken) (auto simp: I_def)
qed

lemma hoare_clear_rocks:
  "hoare E (\<lambda>w. w = w0 \<and> valid g w0) (clear_rocks g)
     (\<lambda>_ w. valid g w \<and> writes_only g w0 w \<and> tape w = tape w0
        \<and> (\<forall>y<30. \<forall>x<30. tile_at w g y x
              = (if tile_at w0 g y x = ROCK then PLAINS else tile_at w0 g y x)))"
proof -
  have "hoare E (\<lambda>w. w = w0 \<and> valid g w0 \<and> (\<lambda>n t. t = tape w0) 0 (tape w0))
     (for_each [0..<30] (\<lambda>y. for_each [0..<30] (\<lambda>x.
        bnd (cell g (int y) (int x)) (\<lambda>v.
         if v = ROCK then put g (int y) (int x) PLAINS else ret ()))))
     (\<lambda>_ w. valid g w \<and> writes_only g w0 w \<and> (\<lambda>n t. t = tape w0) 900 (tape w)
        \<and> (\<forall>y<30. \<forall>x<30. (\<lambda>y x old v. v = (if old = ROCK then PLAINS else old))
               y x (tile_at w0 g y x) (tile_at w g y x)))"
  proof (rule hoare_cells, rule hoareI)
    fix y x :: nat and w1 w
    assume "y < 30" "x < 30" and "w = w1 \<and> valid g w1 \<and> tape w1 = tape w0"
    then show "case bnd (cell g (int y) (int x)) (\<lambda>v.
         if v = ROCK then put g (int y) (int x) PLAINS else ret ()) w of
                 Inl e \<Rightarrow> E e
               | Inr (r, w') \<Rightarrow> \<exists>v. heap w' = heap (upd w1 g y x v)
                    \<and> v = (if tile_at w1 g y x = ROCK then PLAINS else tile_at w1 g y x)
                    \<and> tape w' = tape w0"
      by (simp add: bnd_def cell_nat put_nat ret_def upd_same)
  qed
  then show ?thesis by (simp add: clear_rocks_def)
qed

subsection \<open>Draws\<close>

lemma fed_mono: "fed E c k t \<Longrightarrow> k' \<le> k \<Longrightarrow> fed E c k' t"
  by (auto simp: fed_def)

lemma knownI: "A \<Longrightarrow> known E A"
  by (simp add: known_def)

lemma hoare_draw:
  "hoare E (\<lambda>w. w = w1 \<and> fed E c (Suc k) (tape w1)) draw
     (\<lambda>r w. heap w = heap w1 \<and> fed E c k (tape w) \<and> known E (r = c))"
proof (rule hoareI)
  fix w assume pre: "w = w1 \<and> fed E c (Suc k) (tape w1)"
  show "case draw w of Inl e \<Rightarrow> E e
        | Inr (r, w') \<Rightarrow> heap w' = heap w1 \<and> fed E c k (tape w') \<and> known E (r = c)"
  proof (cases "tape w")
    case Nil
    then show ?thesis using pre by (auto simp: draw_def fed_def)
  next
    case (Cons r t)
    have "fed E c k t \<and> known E (r = c)"
    proof (cases "E OutOfDraws")
      case True
      then show ?thesis by (simp add: fed_def known_def)
    next
      case False
      then obtain n where n: "Suc k \<le> n" "r # t = replicate n c"
        using pre Cons by (auto simp: fed_def)
      then obtain m where "n = Suc m" by (cases n) auto
      then show ?thesis using n by (auto simp: fed_def known_def)
    qed
    then show ?thesis using pre Cons by (simp add: draw_def)
  qed
qed

lemma randint_range:
  "a \<le> b \<Longrightarrow> a \<le> a + int r mod (b - a + 1) \<and> a + int r mod (b - a + 1) \<le> b"
  using pos_mod_bound [of "b - a + 1" "int r"] pos_mod_sign [of "b - a + 1" "int r"]
  by linarith

lemma hoare_randint:
  "hoare E (\<lambda>w. w = w1 \<and> fed E c (Suc k) (tape w1)) (randint a b)
     (\<lambda>r w. heap w = heap w1 \<and> fed E c k (tape w)
        \<and> (a \<le> b \<longrightarrow> a \<le> r \<and> r \<le> b) \<and> known E (r = a + int c mod (b - a + 1)))"
  unfolding randint_def
  by (rule hoare_bnd [OF hoare_draw [of E w1 c k]])
     (auto simp: hoare_def ret_def known_def randint_range)

lemma hoare_random_below_rate:
  "hoare E (\<lambda>w. w = w1 \<and> fed E c (Suc k) (tape w1)) random_below_rate
     (\<lambda>r w. heap w = heap w1 \<and> fed E c k (tape w) \<and> known E (r = (c mod 100 < 3)))"
  unfolding random_below_rate_def
  by (rule hoare_bnd [OF hoare_draw [of E w1 c k]])
     (auto simp: hoare_def ret_def known_def)

subsection \<open>mutate's sweep, the seed search\<close>

lemma fed_NilD: "fed E c (Suc k) [] \<Longrightarrow> E OutOfDraws"
  by (auto simp: fed_def)

lemma fed_ConsD: "fed E c (Suc k) (r # t) \<Longrightarrow> fed E c k t"
  by (auto simp: fed_def Cons_replicate_eq)

lemma fed_known: "fed E c (Suc k) (r # t) \<Longrightarrow> known E (r = c)"
  by (auto simp: fed_def known_def Cons_replicate_eq)

lemma fed_trivial: "E OutOfDraws \<Longrightarrow> fed E c k t"
  by (simp add: fed_def)

lemma draw_Nil: "tape w = [] \<Longrightarrow> draw w = Inl OutOfDraws"
  by (simp add: draw_def)

lemma draw_Cons: "tape w = r # t \<Longrightarrow> draw w = Inr (r, w\<lparr>tape := t\<rparr>)"
  by (simp add: draw_def)

lemma randint_Nil: "tape w = [] \<Longrightarrow> randint a b w = Inl OutOfDraws"
  by (simp add: randint_def bnd_def draw_def)

lemma randint_Cons:
  "tape w = r # t \<Longrightarrow> randint a b w = Inr (a + int r mod (b - a + 1), w\<lparr>tape := t\<rparr>)"
  by (simp add: randint_def bnd_def draw_def ret_def)

lemma valid_tape [simp]: "valid g (w\<lparr>tape := t\<rparr>) = valid g w"
  by (simp add: valid_def)

lemma tile_at_tape [simp]: "tile_at (w\<lparr>tape := t\<rparr>) g y x = tile_at w g y x"
  by (simp add: tile_at_def)

lemma hoare_mutate_cells:
  "hoare E (\<lambda>w. w = w0 \<and> valid g w0 \<and> fed E c (1800 + k) (tape w0)) (mutate_cells g)
     (\<lambda>_ w. valid g w \<and> writes_only g w0 w \<and> fed E c k (tape w)
        \<and> (\<forall>y<30. \<forall>x<30. known E (\<not> c mod 100 < 3 \<longrightarrow> tile_at w g y x = tile_at w0 g y x)))"
proof -
  have "hoare E (\<lambda>w. w = w0 \<and> valid g w0 \<and> (\<lambda>n. fed E c (1800 - 2 * n + k)) 0 (tape w0))
     (for_each [0..<30] (\<lambda>y. for_each [0..<30] (\<lambda>x.
        bnd random_below_rate (\<lambda>hit.
         if hit
         then bnd (randint 0 3) (\<lambda>v. put g (int y) (int x) (tile_of_int v))
         else ret ()))))
     (\<lambda>_ w. valid g w \<and> writes_only g w0 w \<and> (\<lambda>n. fed E c (1800 - 2 * n + k)) 900 (tape w)
        \<and> (\<forall>y<30. \<forall>x<30. (\<lambda>y x old v. known E (\<not> c mod 100 < 3 \<longrightarrow> v = old))
               y x (tile_at w0 g y x) (tile_at w g y x)))"
  proof (rule hoare_cells, unfold hoare_outcome, intro allI impI)
    fix y x :: nat and w1 w
    assume yx: "y < 30" "x < 30"
      and pre: "w = w1 \<and> valid g w1 \<and> fed E c (1800 - 2 * (30 * y + x) + k) (tape w1)"
    define m where "m = 1800 - 2 * Suc (30 * y + x) + k"
    have budget: "1800 - 2 * (30 * y + x) + k = Suc (Suc m)"
      using yx by (simp add: m_def)
    have f: "fed E c (Suc (Suc m)) (tape w1)" and v: "valid g w1" and w: "w = w1"
      using pre budget by simp_all
    let ?prog = "bnd random_below_rate (\<lambda>hit.
         if hit
         then bnd (randint 0 3) (\<lambda>v. put g (int y) (int x) (tile_of_int v))
         else ret ())"
    let ?Q = "\<lambda>(_::unit) w'. \<exists>v. heap w' = heap (upd w1 g y x v)
               \<and> known E (\<not> c mod 100 < 3 \<longrightarrow> v = tile_at w1 g y x)
               \<and> fed E c m (tape w')"
    have "outcome E ?Q (?prog w1)"
    proof (cases "tape w1")
      case Nil
      then show ?thesis using fed_NilD f
        by (auto simp: bnd_def random_below_rate_def draw_Nil)
    next
      case (Cons r t)
      note c1 = this
      have f1: "fed E c (Suc m) t" using f c1 fed_ConsD by metis
      have k1: "known E (r = c)" using f c1 fed_known by metis
      show ?thesis
      proof (cases "r mod 100 < 3")
        case False
        have run: "?prog w1 = Inr ((), w1\<lparr>tape := t\<rparr>)"
          using c1 False by (simp add: bnd_def random_below_rate_def draw_Cons ret_def)
        have "heap (w1\<lparr>tape := t\<rparr>) = heap (upd w1 g y x (tile_at w1 g y x))"
          by (simp add: upd_same)
        moreover have "fed E c m t" by (rule fed_mono [OF f1]) simp
        ultimately have "?Q () (w1\<lparr>tape := t\<rparr>)"
          by (intro exI [of _ "tile_at w1 g y x"]) (simp add: known_def)
        then show ?thesis by (simp only: run outcome_Inr)
      next
        case True
        have kc: "known E (c mod 100 < 3)" using k1 True by (auto simp: known_def)
        show ?thesis
        proof (cases t)
          case Nil
          then have "?prog w1 = Inl OutOfDraws"
            using c1 True by (simp add: bnd_def random_below_rate_def draw_Cons ret_def randint_Nil)
          moreover have "E OutOfDraws" using fed_NilD f1 Nil by metis
          ultimately show ?thesis by simp
        next
          case (Cons r' t')
          let ?v = "tile_of_int (0 + int r' mod (3 - 0 + 1))"
          let ?w' = "upd (w1\<lparr>tape := t'\<rparr>) g y x ?v"
          have run: "?prog w1 = Inr ((), ?w')"
            using c1 True Cons v yx put_nat [of g "w1\<lparr>tape := t'\<rparr>" y x ?v]
            by (simp add: bnd_def random_below_rate_def draw_Cons ret_def randint_Cons)
          have "fed E c m t'" using f1 Cons fed_ConsD by metis
          moreover have "heap ?w' = heap (upd w1 g y x ?v)" by (simp add: upd_def)
          ultimately have "?Q () ?w'"
            using kc by (intro exI [of _ ?v]) (auto simp: known_def)
          then show ?thesis by (simp only: run outcome_Inr)
        qed
      qed
    qed
    then show "outcome E (\<lambda>_ w'. \<exists>v. heap w' = heap (upd w1 g y x v)
               \<and> known E (\<not> c mod 100 < 3 \<longrightarrow> v = tile_at w1 g y x)
               \<and> fed E c (1800 - 2 * Suc (30 * y + x) + k) (tape w')) (?prog w)"
      by (simp add: w m_def)
  qed
  then show ?thesis by (simp add: mutate_cells_def)
qed

lemma find_seed_spec:
  assumes "valid g w" and "fed E c (Suc (Suc k)) (tape w)"
    and "known E (tile_at w g (seed_of c) (seed_of c) \<noteq> MOUNTAIN)"
  shows "case find_seed g w of Inl e \<Rightarrow> E e
         | Inr ((cx, cy), w') \<Rightarrow> heap w' = heap w \<and> 5 \<le> cx \<and> cx \<le> 25 \<and> 5 \<le> cy \<and> cy \<le> 25
              \<and> fed E c k (tape w')
              \<and> known E (cx = int (seed_of c) \<and> cy = int (seed_of c))"
  using assms
proof (induction "length (tape w)" arbitrary: w rule: less_induct)
  case less
  note v = less.prems(1) and f = less.prems(2) and s = less.prems(3)
  show ?case
  proof (cases "tape w")
    case Nil
    then show ?thesis using fed_NilD [OF f [unfolded Nil]]
      by (simp add: find_seed.simps [of g w] bnd_def randint_Nil)
  next
    case (Cons r1 t1)
    note c1 = this
    have f1: "fed E c (Suc k) t1" using f c1 fed_ConsD by metis
    have k1: "known E (r1 = c)" using f c1 fed_known by metis
    show ?thesis
    proof (cases t1)
      case Nil
      then show ?thesis using fed_NilD f1 c1
        by (auto simp: find_seed.simps [of g w] bnd_def randint_Cons randint_Nil)
    next
      case (Cons r2 t)
      note c2 = this
      have f2: "fed E c k t" using f1 c2 fed_ConsD by metis
      have k2: "known E (r2 = c)" using f1 c2 fed_known by metis
      define cx where "cx = 5 + r1 mod 21"
      define cy where "cy = 5 + r2 mod 21"
      let ?w2 = "w\<lparr>tape := t\<rparr>"
      have rng: "cx < 30" "cy < 30" "5 \<le> cx" "cx \<le> 25" "5 \<le> cy" "cy \<le> 25"
        by (simp_all add: cx_def cy_def)
      have cxi: "5 + int r1 mod 21 = int cx" "5 + int r2 mod 21 = int cy"
        by (simp_all add: cx_def cy_def zmod_int)
      have rd: "cell g (int cy) (int cx) ?w2 = Inr (tile_at w g cy cx, ?w2)"
        using cell_nat [of g ?w2 cy cx] v rng by simp
      have unf: "find_seed g w =
          (if tile_at w g cy cx \<noteq> MOUNTAIN then Inr ((int cx, int cy), ?w2)
           else find_seed g ?w2)"
        using c1 c2 rd
        by (simp add: find_seed.simps [of g w] bnd_def randint_Cons cxi ret_def)
      show ?thesis
      proof (cases "tile_at w g cy cx \<noteq> MOUNTAIN")
        case True
        have "known E (int cx = int (seed_of c) \<and> int cy = int (seed_of c))"
          using k1 k2 by (auto simp: known_def cx_def cy_def seed_of_def)
        then show ?thesis using True unf f2 rng by simp
      next
        case False
        have E: "E OutOfDraws"
        proof (rule ccontr)
          assume "\<not> E OutOfDraws"
          then have "r1 = c" "r2 = c" "tile_at w g (seed_of c) (seed_of c) \<noteq> MOUNTAIN"
            using k1 k2 s by (simp_all add: known_def)
          then show False using False by (simp add: cx_def cy_def seed_of_def)
        qed
        have "length (tape ?w2) < length (tape w)" using c1 c2 by simp
        from less.hyps [OF this, of ] v E
        have "case find_seed g ?w2 of Inl e \<Rightarrow> E e
         | Inr ((cx, cy), w') \<Rightarrow> heap w' = heap ?w2 \<and> 5 \<le> cx \<and> cx \<le> 25 \<and> 5 \<le> cy \<and> cy \<le> 25
              \<and> fed E c k (tape w')
              \<and> known E (cx = int (seed_of c) \<and> cy = int (seed_of c))"
          by (simp add: fed_trivial known_def)
        then show ?thesis using False unf by (auto split: sum.splits prod.splits)
      qed
    qed
  qed
qed

subsection \<open>place_rocks\<close>

lemma only_rocks_added_refl [simp]: "only_rocks_added g w w"
  by (simp add: only_rocks_added_def)

lemma only_rocks_added_trans:
  "only_rocks_added g w0 w1 \<Longrightarrow> only_rocks_added g w1 w2 \<Longrightarrow> only_rocks_added g w0 w2"
  unfolding only_rocks_added_def by (metis tile.distinct(5))

lemma only_rocks_added_tape [simp]:
  "only_rocks_added g w0 (w\<lparr>tape := t\<rparr>) = only_rocks_added g w0 w"
  by (simp add: only_rocks_added_def)

lemma writes_only_tape [simp]: "writes_only g w0 (w\<lparr>tape := t\<rparr>) = writes_only g w0 w"
  by (simp add: writes_only_def)

lemma rock_cells_tape [simp]: "rock_cells (w\<lparr>tape := t\<rparr>) g = rock_cells w g"
  by (simp add: rock_cells_def)

lemma finite_cells: "finite {(y, x). y < (30::nat) \<and> x < (30::nat) \<and> P y x}"
  by (rule finite_subset [of _ "{..<30} \<times> {..<30}"]) auto

lemma rock_cells_upd:
  assumes "valid g w" "y < 30" "x < 30"
  shows "rock_cells (upd w g y x v) g \<le> Suc (rock_cells w g)"
proof -
  have "{(y', x'). y' < 30 \<and> x' < 30 \<and> tile_at (upd w g y x v) g y' x' = ROCK}
          \<subseteq> insert (y, x) {(y', x'). y' < 30 \<and> x' < 30 \<and> tile_at w g y' x' = ROCK}"
    using assms by (auto simp: tile_at_upd)
  then have "rock_cells (upd w g y x v) g
          \<le> card (insert (y, x) {(y', x'). y' < 30 \<and> x' < 30 \<and> tile_at w g y' x' = ROCK})"
    unfolding rock_cells_def by (intro card_mono) (simp_all add: finite_cells)
  also have "\<dots> \<le> Suc (rock_cells w g)"
    unfolding rock_cells_def by (simp add: card_insert_le_m1 card_insert_if finite_cells)
  finally show ?thesis .
qed

text \<open>One round of the inner loop of \<^verbatim>\<open>place_rocks\<close>: two draws, at most one new rock.\<close>

lemma place_one_rock:
  assumes v: "valid g w" and c: "5 \<le> cx" "cx \<le> 25" "5 \<le> cy" "cy \<le> 25"
    and f: "fed E c (Suc (Suc k)) (tape w)"
  shows "outcome E
     (\<lambda>_ w'. valid g w' \<and> writes_only g w w' \<and> only_rocks_added g w w'
         \<and> rock_cells w' g \<le> Suc (rock_cells w g) \<and> fed E c k (tape w')
         \<and> known E (tile_at w' g (nat (cy + (- 1 + int c mod 3)))
                      (nat (cx + (- 1 + int c mod 3))) \<noteq> PLAINS))
     (bnd (randint (-1) 1) (\<lambda>dx.
      bnd (randint (-1) 1) (\<lambda>dy.
      let nx = cx + dx; ny = cy + dy in
      if 0 < nx \<and> nx < int MAP_WIDTH - 1 \<and> 0 < ny \<and> ny < int MAP_HEIGHT - 1
      then bnd (cell g ny nx) (\<lambda>v.
           if v = PLAINS then put g ny nx ROCK else ret ())
      else ret ())) w)"
proof (cases "tape w")
  case Nil
  then show ?thesis using fed_NilD [OF f [unfolded Nil]]
    by (simp add: bnd_def randint_Nil)
next
  case (Cons r1 t1)
  note c1 = this
  have f1: "fed E c (Suc k) t1" using f c1 fed_ConsD by metis
  have k1: "known E (r1 = c)" using f c1 fed_known by metis
  show ?thesis
  proof (cases t1)
    case Nil
    then show ?thesis using fed_NilD f1 c1
      by (auto simp: bnd_def randint_Cons randint_Nil)
  next
    case (Cons r2 t)
    note c2 = this
    have f2: "fed E c k t" using f1 c2 fed_ConsD by metis
    have k2: "known E (r2 = c)" using f1 c2 fed_known by metis
    define nx where "nx = nat (cx + (- 1 + int r1 mod 3))"
    define ny where "ny = nat (cy + (- 1 + int r2 mod 3))"
    have m1: "0 \<le> int r1 mod 3" "int r1 mod 3 < 3" "0 \<le> int r2 mod 3" "int r2 mod 3 < 3"
      by simp_all
    have nxi: "cx + (- 1 + int r1 mod 3) = int nx" "cy + (- 1 + int r2 mod 3) = int ny"
      using c m1 by (simp_all add: nx_def ny_def)
    have rng: "0 < nx" "nx < 29" "0 < ny" "ny < 29"
      using c m1 by (simp_all add: nx_def ny_def)
    let ?w2 = "w\<lparr>tape := t\<rparr>"
    let ?w3 = "if tile_at w g ny nx = PLAINS then upd ?w2 g ny nx ROCK else ?w2"
    have run: "bnd (randint (-1) 1) (\<lambda>dx.
      bnd (randint (-1) 1) (\<lambda>dy.
      let nx = cx + dx; ny = cy + dy in
      if 0 < nx \<and> nx < int MAP_WIDTH - 1 \<and> 0 < ny \<and> ny < int MAP_HEIGHT - 1
      then bnd (cell g ny nx) (\<lambda>v.
           if v = PLAINS then put g ny nx ROCK else ret ())
      else ret ())) w = Inr ((), ?w3)"
    proof -
      have e1: "randint (-1) 1 w = Inr (int nx - cx, w\<lparr>tape := t1\<rparr>)"
        using c1 nxi by (simp add: randint_Cons)
      have e2: "randint (-1) 1 (w\<lparr>tape := t1\<rparr>) = Inr (int ny - cy, ?w2)"
        using c2 nxi by (simp add: randint_Cons)
      show ?thesis
        using v rng cell_nat [of g ?w2 ny nx] put_nat [of g ?w2 ny nx ROCK]
        by (simp add: bnd_def e1 e2 Let_def ret_def)
    qed
    have lg: "ny < length g" using v rng by (simp add: valid_def)
    have "valid g ?w3" using v by simp
    moreover have "writes_only g w ?w3"
      using writes_only_upd [OF lg, of w ?w2 nx ROCK] by simp
    moreover have "only_rocks_added g w ?w3"
      using v rng by (auto simp: only_rocks_added_def tile_at_upd)
    moreover have "rock_cells ?w3 g \<le> Suc (rock_cells w g)"
      using rock_cells_upd [of g ?w2 ny nx ROCK] v rng by simp
    moreover have "tile_at ?w3 g ny nx \<noteq> PLAINS"
      using v rng by (simp add: tile_at_upd)
    then have "known E (tile_at ?w3 g (nat (cy + (- 1 + int c mod 3)))
                      (nat (cx + (- 1 + int c mod 3))) \<noteq> PLAINS)"
      using k1 k2 unfolding known_def nx_def ny_def by blast
    moreover have "fed E c k (tape ?w3)" using f2 by simp
    ultimately show ?thesis unfolding run by simp
  qed
qed

lemma heap_eq_tape: "heap (w' :: world) = heap w \<Longrightarrow> w' = w\<lparr>tape := tape w'\<rparr>"
  by (cases w, cases w') simp

lemma writes_only_tape0 [simp]: "writes_only g (w0\<lparr>tape := t\<rparr>) w = writes_only g w0 w"
  by (simp add: writes_only_def)

lemma only_rocks_added_tape0 [simp]:
  "only_rocks_added g (w0\<lparr>tape := t\<rparr>) w = only_rocks_added g w0 w"
  by (simp add: only_rocks_added_def)

lemma writes_only_heap0: "heap w0' = heap w0 \<Longrightarrow> writes_only g w0' w = writes_only g w0 w"
  by (simp add: writes_only_def)

lemma only_rocks_added_heap0:
  "heap w0' = heap w0 \<Longrightarrow> only_rocks_added g w0' w = only_rocks_added g w0 w"
  by (simp add: only_rocks_added_def tile_at_def)

lemma rock_cells_heap: "heap w' = heap w \<Longrightarrow> rock_cells w' g = rock_cells w g"
  by (simp add: rock_cells_def tile_at_def)

lemma only_rocks_added_keeps:
  "only_rocks_added g w0 w \<Longrightarrow> y < 30 \<Longrightarrow> x < 30 \<Longrightarrow> tile_at w0 g y x \<noteq> PLAINS
     \<Longrightarrow> tile_at w g y x = tile_at w0 g y x"
  by (auto simp: only_rocks_added_def)

lemma only_rocks_added_no_mountain:
  assumes "only_rocks_added g w0 w" "y < 30" "x < 30" "tile_at w0 g y x \<noteq> MOUNTAIN"
  shows "tile_at w g y x \<noteq> MOUNTAIN"
proof -
  have "tile_at w g y x = tile_at w0 g y x \<or> tile_at w g y x = ROCK"
    using assms(1-3) unfolding only_rocks_added_def by blast
  then show ?thesis using assms(4) by auto
qed

lemma hoare_cluster:
  assumes c: "5 \<le> cx" "cx \<le> 25" "5 \<le> cy" "cy \<le> 25"
  shows "hoare E (\<lambda>w. w = w1 \<and> valid g w1 \<and> fed E c (2 * n + k) (tape w1))
     (for_each [0..<n] (\<lambda>_.
         bnd (randint (-1) 1) (\<lambda>dx.
         bnd (randint (-1) 1) (\<lambda>dy.
         let nx = cx + dx; ny = cy + dy in
         if 0 < nx \<and> nx < int MAP_WIDTH - 1 \<and> 0 < ny \<and> ny < int MAP_HEIGHT - 1
         then bnd (cell g ny nx) (\<lambda>v.
              if v = PLAINS then put g ny nx ROCK else ret ())
         else ret ()))))
     (\<lambda>_ w. valid g w \<and> writes_only g w1 w \<and> only_rocks_added g w1 w
        \<and> rock_cells w g \<le> rock_cells w1 g + n \<and> fed E c k (tape w)
        \<and> (0 < n \<longrightarrow> known E (tile_at w g (nat (cy + (- 1 + int c mod 3)))
                                  (nat (cx + (- 1 + int c mod 3))) \<noteq> PLAINS)))"
proof -
  let ?ty = "nat (cy + (- 1 + int c mod 3))" and ?tx = "nat (cx + (- 1 + int c mod 3))"
  define J where "J j w \<longleftrightarrow> valid g w \<and> writes_only g w1 w \<and> only_rocks_added g w1 w
        \<and> rock_cells w g \<le> rock_cells w1 g + j \<and> fed E c (2 * (n - j) + k) (tape w)
        \<and> (0 < j \<longrightarrow> known E (tile_at w g ?ty ?tx \<noteq> PLAINS))" for j w
  have step: "hoare E (J j)
     (bnd (randint (-1) 1) (\<lambda>dx.
         bnd (randint (-1) 1) (\<lambda>dy.
         let nx = cx + dx; ny = cy + dy in
         if 0 < nx \<and> nx < int MAP_WIDTH - 1 \<and> 0 < ny \<and> ny < int MAP_HEIGHT - 1
         then bnd (cell g ny nx) (\<lambda>v.
              if v = PLAINS then put g ny nx ROCK else ret ())
         else ret ()))) (\<lambda>_. J (Suc j))" if "j < n" for j
    unfolding hoare_outcome
  proof (intro allI impI)
    fix w assume J: "J j w"
    have b: "2 * (n - j) + k = Suc (Suc (2 * (n - Suc j) + k))" using that by simp
    have f: "fed E c (Suc (Suc (2 * (n - Suc j) + k))) (tape w)"
      using J b by (simp add: J_def)
    have v: "valid g w" using J by (simp add: J_def)
    show "outcome E (\<lambda>_. J (Suc j))
     (bnd (randint (-1) 1) (\<lambda>dx.
         bnd (randint (-1) 1) (\<lambda>dy.
         let nx = cx + dx; ny = cy + dy in
         if 0 < nx \<and> nx < int MAP_WIDTH - 1 \<and> 0 < ny \<and> ny < int MAP_HEIGHT - 1
         then bnd (cell g ny nx) (\<lambda>v.
              if v = PLAINS then put g ny nx ROCK else ret ())
         else ret ())) w)"
    proof (rule outcome_mono [OF place_one_rock [OF v c f]])
      fix u w'
      assume "valid g w' \<and> writes_only g w w' \<and> only_rocks_added g w w'
         \<and> rock_cells w' g \<le> Suc (rock_cells w g) \<and> fed E c (2 * (n - Suc j) + k) (tape w')
         \<and> known E (tile_at w' g ?ty ?tx \<noteq> PLAINS)"
      then show "J (Suc j) w'"
        using J unfolding J_def
        by (auto intro: writes_only_trans only_rocks_added_trans)
    qed
  qed
  have "hoare E (J 0) (for_each [0..<n] (\<lambda>_.
         bnd (randint (-1) 1) (\<lambda>dx.
         bnd (randint (-1) 1) (\<lambda>dy.
         let nx = cx + dx; ny = cy + dy in
         if 0 < nx \<and> nx < int MAP_WIDTH - 1 \<and> 0 < ny \<and> ny < int MAP_HEIGHT - 1
         then bnd (cell g ny nx) (\<lambda>v.
              if v = PLAINS then put g ny nx ROCK else ret ())
         else ret ())))) (\<lambda>_. J n)"
    by (rule hoare_for_each_upt) (rule step)
  then show ?thesis
    by (rule hoare_weaken) (auto simp: J_def)
qed

lemma hoare_place_rocks:
  "hoare E (\<lambda>w. w = w0 \<and> valid g w0 \<and> fed E c (13 * n + k) (tape w0)
               \<and> known E (tile_at w0 g (seed_of c) (seed_of c) \<noteq> MOUNTAIN))
     (place_rocks g n)
     (\<lambda>_ w. valid g w \<and> writes_only g w0 w \<and> only_rocks_added g w0 w
        \<and> rock_cells w g \<le> rock_cells w0 g + 5 * n \<and> fed E c k (tape w)
        \<and> (0 < n \<longrightarrow> known E (tile_at w g (target_of c) (target_of c) \<noteq> PLAINS)))"
proof -
  let ?s = "seed_of c" and ?t = "target_of c"
  define I where "I i w \<longleftrightarrow> valid g w \<and> writes_only g w0 w \<and> only_rocks_added g w0 w
        \<and> rock_cells w g \<le> rock_cells w0 g + 5 * i \<and> fed E c (13 * (n - i) + k) (tape w)
        \<and> known E (tile_at w g ?s ?s \<noteq> MOUNTAIN)
        \<and> (0 < i \<longrightarrow> known E (tile_at w g ?t ?t \<noteq> PLAINS))" for i w
  have s30: "?s < 30" "?t < 30" by (simp_all add: seed_of_def target_of_def)
  have tgt: "nat (int ?s + (- 1 + int c mod 3)) = ?t"
    by (simp add: seed_of_def target_of_def nat_add_distrib nat_diff_distrib nat_mod_distrib)
  let ?cluster = "\<lambda>(cx, cy).
       bnd (randint 3 5) (\<lambda>cluster_size.
       for_each [0..<nat cluster_size] (\<lambda>_.
         bnd (randint (-1) 1) (\<lambda>dx.
         bnd (randint (-1) 1) (\<lambda>dy.
         let nx = cx + dx; ny = cy + dy in
         if 0 < nx \<and> nx < int MAP_WIDTH - 1 \<and> 0 < ny \<and> ny < int MAP_HEIGHT - 1
         then bnd (cell g ny nx) (\<lambda>v.
              if v = PLAINS then put g ny nx ROCK else ret ())
         else ret ()))))"
  have step: "hoare E (I i) (bnd (find_seed g) ?cluster) (\<lambda>_. I (Suc i))" if "i < n" for i
    unfolding hoare_outcome
  proof (intro allI impI)
    fix w assume I: "I i w"
    define kk where "kk = 13 * (n - Suc i) + k"
    have b: "13 * (n - i) + k = Suc (Suc (11 + kk))" using that by (simp add: kk_def)
    have v: "valid g w" and f: "fed E c (Suc (Suc (11 + kk))) (tape w)"
      and nm: "known E (tile_at w g ?s ?s \<noteq> MOUNTAIN)"
      using I b by (simp_all add: I_def)
    have "outcome E (\<lambda>p w'. outcome E (\<lambda>_. I (Suc i)) (?cluster p w')) (find_seed g w)"
    proof (rule outcome_mono [where Q = "\<lambda>p w'. case p of (cx, cy) \<Rightarrow>
              heap w' = heap w \<and> 5 \<le> cx \<and> cx \<le> 25 \<and> 5 \<le> cy \<and> cy \<le> 25
              \<and> fed E c (11 + kk) (tape w')
              \<and> known E (cx = int ?s \<and> cy = int ?s)"])
      show "outcome E (\<lambda>p w'. case p of (cx, cy) \<Rightarrow>
              heap w' = heap w \<and> 5 \<le> cx \<and> cx \<le> 25 \<and> 5 \<le> cy \<and> cy \<le> 25
              \<and> fed E c (11 + kk) (tape w')
              \<and> known E (cx = int ?s \<and> cy = int ?s)) (find_seed g w)"
        using find_seed_spec [OF v f nm]
        by (auto simp: outcome_def split: sum.splits prod.splits)
    next
      fix p :: "int \<times> int" and w1 :: world
      assume a: "case p of (cx, cy) \<Rightarrow>
              heap w1 = heap w \<and> 5 \<le> cx \<and> cx \<le> 25 \<and> 5 \<le> cy \<and> cy \<le> 25
              \<and> fed E c (11 + kk) (tape w1)
              \<and> known E (cx = int ?s \<and> cy = int ?s)"
      obtain cx cy where p: "p = (cx, cy)" by (cases p)
      have h1: "heap w1 = heap w" and c: "5 \<le> cx" "cx \<le> 25" "5 \<le> cy" "cy \<le> 25"
        and f1: "fed E c (Suc (10 + kk)) (tape w1)"
        and ks: "known E (cx = int ?s \<and> cy = int ?s)"
        using a p by simp_all
      have "outcome E (\<lambda>sz w2. outcome E (\<lambda>_. I (Suc i))
              (for_each [0..<nat sz] (\<lambda>_.
         bnd (randint (-1) 1) (\<lambda>dx.
         bnd (randint (-1) 1) (\<lambda>dy.
         let nx = cx + dx; ny = cy + dy in
         if 0 < nx \<and> nx < int MAP_WIDTH - 1 \<and> 0 < ny \<and> ny < int MAP_HEIGHT - 1
         then bnd (cell g ny nx) (\<lambda>v.
              if v = PLAINS then put g ny nx ROCK else ret ())
         else ret ()))) w2)) (randint 3 5 w1)"
      proof (rule outcome_mono [OF outcome_hoare [OF hoare_randint [of E w1 c "10 + kk" 3 5]]])
        show "w1 = w1 \<and> fed E c (Suc (10 + kk)) (tape w1)" using f1 by simp
      next
        fix sz :: int and w2 :: world
        assume a2: "heap w2 = heap w1 \<and> fed E c (10 + kk) (tape w2)
            \<and> ((3::int) \<le> 5 \<longrightarrow> 3 \<le> sz \<and> sz \<le> 5) \<and> known E (sz = 3 + int c mod (5 - 3 + 1))"
        then have sz: "3 \<le> sz" "sz \<le> 5" and h2: "heap w2 = heap w" using h1 by simp_all
        have v2: "valid g w2" using v by (simp add: valid_heap [OF h2])
        have f2: "fed E c (2 * nat sz + kk) (tape w2)"
          using a2 sz by (auto intro: fed_mono)
        show "outcome E (\<lambda>_. I (Suc i))
              (for_each [0..<nat sz] (\<lambda>_.
         bnd (randint (-1) 1) (\<lambda>dx.
         bnd (randint (-1) 1) (\<lambda>dy.
         let nx = cx + dx; ny = cy + dy in
         if 0 < nx \<and> nx < int MAP_WIDTH - 1 \<and> 0 < ny \<and> ny < int MAP_HEIGHT - 1
         then bnd (cell g ny nx) (\<lambda>v.
              if v = PLAINS then put g ny nx ROCK else ret ())
         else ret ()))) w2)"
        proof (rule outcome_mono [OF outcome_hoare [OF hoare_cluster [OF c, of E w2 g c "nat sz" kk]]])
          show "w2 = w2 \<and> valid g w2 \<and> fed E c (2 * nat sz + kk) (tape w2)"
            using v2 f2 by simp
        next
          fix u :: unit and w3 :: world
          assume a3: "valid g w3 \<and> writes_only g w2 w3 \<and> only_rocks_added g w2 w3
            \<and> rock_cells w3 g \<le> rock_cells w2 g + nat sz \<and> fed E c kk (tape w3)
            \<and> (0 < nat sz \<longrightarrow> known E (tile_at w3 g (nat (cy + (- 1 + int c mod 3)))
                                  (nat (cx + (- 1 + int c mod 3))) \<noteq> PLAINS))"
          have wo: "writes_only g w w3" "only_rocks_added g w w3"
            using a3 by (simp_all add: writes_only_heap0 [OF h2] only_rocks_added_heap0 [OF h2])
          have rc: "rock_cells w3 g \<le> rock_cells w g + 5"
          proof -
            have "rock_cells w2 g = rock_cells w g" by (rule rock_cells_heap [OF h2])
            moreover have "nat sz \<le> 5" using sz by simp
            ultimately show ?thesis using a3 by linarith
          qed
          have kt: "known E (tile_at w3 g ?t ?t \<noteq> PLAINS)"
          proof (cases "E OutOfDraws")
            case True then show ?thesis by (simp add: known_def)
          next
            case False
            then have "cx = int ?s" "cy = int ?s" using ks by (simp_all add: known_def)
            then show ?thesis using a3 sz tgt by simp
          qed
          have km: "known E (tile_at w3 g ?s ?s \<noteq> MOUNTAIN)"
            using nm only_rocks_added_no_mountain [OF wo(2) s30(1) s30(1)]
            by (auto simp: known_def)
          have "writes_only g w0 w3" "only_rocks_added g w0 w3"
            using I wo
            by (auto simp: I_def intro: writes_only_trans only_rocks_added_trans)
          moreover have "rock_cells w3 g \<le> rock_cells w0 g + 5 * Suc i"
            using I rc by (simp add: I_def)
          moreover have "fed E c (13 * (n - Suc i) + k) (tape w3)"
            using a3 by (simp add: kk_def)
          ultimately show "I (Suc i) w3"
            using a3 kt km by (simp add: I_def)
        qed
      qed
      then show "outcome E (\<lambda>_. I (Suc i)) (?cluster p w1)"
        by (simp add: p outcome_bnd)
    qed
    then show "outcome E (\<lambda>_. I (Suc i)) (bnd (find_seed g) ?cluster w)"
      by (simp add: outcome_bnd)
  qed
  have "hoare E (I 0) (place_rocks g n) (\<lambda>_. I n)"
    unfolding place_rocks_def
    by (rule hoare_for_each_upt) (rule step)
  then show ?thesis
    by (rule hoare_weaken) (auto simp: I_def)
qed

subsection \<open>generate_random_map\<close>

lemma hoare_generate_row:
  "hoare E (\<lambda>w. w = w1 \<and> fed E c (30 + k) (tape w1))
     (for_loop [0..<MAP_WIDTH] (\<lambda>x row.
              if x = 0 \<or> x = MAP_WIDTH - 1 \<or> y = 0 \<or> y = MAP_HEIGHT - 1
              then ret (row @ [MOUNTAIN])
              else bnd (randint 0 3) (\<lambda>v. ret (row @ [tile_of_int v]))) [])
     (\<lambda>row w. heap w = heap w1 \<and> length row = 30 \<and> fed E c k (tape w)
        \<and> known E (\<forall>x<30. row ! x = generated c y x))"
proof -
  define J where "J j row w \<longleftrightarrow> heap w = heap w1 \<and> length row = j
        \<and> fed E c (30 - j + k) (tape w)
        \<and> known E (\<forall>x<j. row ! x = generated c y x)" for j row and w :: world
  have step: "hoare E (J j row)
     (if j = 0 \<or> j = MAP_WIDTH - 1 \<or> y = 0 \<or> y = MAP_HEIGHT - 1
              then ret (row @ [MOUNTAIN])
              else bnd (randint 0 3) (\<lambda>v. ret (row @ [tile_of_int v]))) (J (Suc j))"
    if "j < 30" for j row
    unfolding hoare_outcome
  proof (intro allI impI)
    fix w assume J: "J j row w"
    have b: "30 - j + k = Suc (30 - Suc j + k)" using that by simp
    have f: "fed E c (Suc (30 - Suc j + k)) (tape w)" using J b by (simp add: J_def)
    have f': "fed E c (30 - Suc j + k) (tape w)" using f by (rule fed_mono) simp
    show "outcome E (J (Suc j))
     ((if j = 0 \<or> j = MAP_WIDTH - 1 \<or> y = 0 \<or> y = MAP_HEIGHT - 1
              then ret (row @ [MOUNTAIN])
              else bnd (randint 0 3) (\<lambda>v. ret (row @ [tile_of_int v]))) w)"
    proof (cases "j = 0 \<or> j = MAP_WIDTH - 1 \<or> y = 0 \<or> y = MAP_HEIGHT - 1")
      case True
      then have "generated c y j = MOUNTAIN" by (auto simp: generated_def border_def)
      then have "known E (\<forall>x<Suc j. (row @ [MOUNTAIN]) ! x = generated c y x)"
        using J by (auto simp: J_def known_def nth_append less_Suc_eq)
      then show ?thesis using True J f' by (simp add: ret_def J_def)
    next
      case False
      then have g: "generated c y j = tile_of_int (int c mod 4)"
        by (auto simp: generated_def border_def)
      show ?thesis
      proof (cases "tape w")
        case Nil
        then show ?thesis using False fed_NilD [OF f [unfolded Nil]]
          by (simp add: bnd_def randint_Nil)
      next
        case (Cons r t)
        have ft: "fed E c (30 - Suc j + k) t" using f Cons fed_ConsD by metis
        have kr: "known E (r = c)" using f Cons fed_known by metis
        have "known E (\<forall>x<Suc j. (row @ [tile_of_int (int r mod 4)]) ! x = generated c y x)"
          using J kr g by (auto simp: J_def known_def nth_append less_Suc_eq)
        then show ?thesis using False Cons J ft
          by (simp add: bnd_def randint_Cons ret_def J_def)
      qed
    qed
  qed
  have "hoare E (J 0 [])
     (for_loop [0..<MAP_WIDTH] (\<lambda>x row.
              if x = 0 \<or> x = MAP_WIDTH - 1 \<or> y = 0 \<or> y = MAP_HEIGHT - 1
              then ret (row @ [MOUNTAIN])
              else bnd (randint 0 3) (\<lambda>v. ret (row @ [tile_of_int v]))) []) (J 30)"
    by (rule hoare_for_upt) (rule step)
  then show ?thesis
    by (rule hoare_weaken) (auto simp: J_def known_def)
qed

lemma fresh_map_valid: "fresh_map w0 w g \<Longrightarrow> valid g w"
  by (auto simp: fresh_map_def valid_def nth_append)

lemma fresh_map_old: "fresh_map w0 w g \<Longrightarrow> a < length (heap w0) \<Longrightarrow> heap w ! a = heap w0 ! a"
  by (auto simp: fresh_map_def nth_append)

lemma fresh_map_length: "fresh_map w0 w g \<Longrightarrow> length (heap w) = length (heap w0) + 30"
  by (auto simp: fresh_map_def)

lemma fresh_map_set: "fresh_map w0 w g \<Longrightarrow> a \<in> set g \<Longrightarrow> length (heap w0) \<le> a"
  by (auto simp: fresh_map_def)

lemma hoare_generate_random_map:
  "hoare E (\<lambda>w. w = w0 \<and> fed E c (900 + k) (tape w0)) generate_random_map
     (\<lambda>g w. fresh_map w0 w g \<and> fed E c k (tape w)
        \<and> known E (\<forall>y<30. \<forall>x<30. tile_at w g y x = generated c y x))"
proof -
  let ?l = "length (heap w0)"
  define I where "I i m w \<longleftrightarrow> m = [?l..<?l + i]
     \<and> (\<exists>rows. heap w = heap w0 @ rows \<and> length rows = i \<and> (\<forall>r\<in>set rows. length r = 30)
           \<and> known E (\<forall>y<i. \<forall>x<30. rows ! y ! x = generated c y x))
     \<and> fed E c (30 * (30 - i) + k) (tape w)" for i m and w :: world
  have step: "hoare E (I i m)
     (bnd (for_loop [0..<MAP_WIDTH] (\<lambda>x row.
              if x = 0 \<or> x = MAP_WIDTH - 1 \<or> i = 0 \<or> i = MAP_HEIGHT - 1
              then ret (row @ [MOUNTAIN])
              else bnd (randint 0 3) (\<lambda>v. ret (row @ [tile_of_int v]))) [])
         (\<lambda>row.
       bnd (alloc row) (\<lambda>a.
       ret (m @ [a])))) (I (Suc i))" if "i < 30" for i m
    unfolding hoare_outcome
  proof (intro allI impI)
    fix w assume I: "I i m w"
    define kk where "kk = 30 * (30 - Suc i) + k"
    have b: "30 * (30 - i) + k = 30 + kk" using that by (simp add: kk_def)
    have f: "fed E c (30 + kk) (tape w)" using I b by (simp add: I_def)
    from I obtain rows where rows: "heap w = heap w0 @ rows" "length rows = i"
      "\<forall>r\<in>set rows. length r = 30" "known E (\<forall>y<i. \<forall>x<30. rows ! y ! x = generated c y x)"
      and m: "m = [?l..<?l + i]"
      by (auto simp: I_def)
    have "outcome E (\<lambda>row w1. outcome E (I (Suc i))
            (bnd (alloc row) (\<lambda>a. ret (m @ [a])) w1))
       (for_loop [0..<MAP_WIDTH] (\<lambda>x row.
              if x = 0 \<or> x = MAP_WIDTH - 1 \<or> i = 0 \<or> i = MAP_HEIGHT - 1
              then ret (row @ [MOUNTAIN])
              else bnd (randint 0 3) (\<lambda>v. ret (row @ [tile_of_int v]))) [] w)"
    proof (rule outcome_mono [OF outcome_hoare [OF hoare_generate_row [of E w c kk i]]])
      show "w = w \<and> fed E c (30 + kk) (tape w)" using f by simp
    next
      fix row and w1 :: world
      assume a: "heap w1 = heap w \<and> length row = 30 \<and> fed E c kk (tape w1)
        \<and> known E (\<forall>x<30. row ! x = generated c i x)"
      let ?w2 = "w1\<lparr>heap := heap w1 @ [row]\<rparr>"
      have run: "bnd (alloc row) (\<lambda>a. ret (m @ [a])) w1 = Inr (m @ [length (heap w1)], ?w2)"
        by (simp add: bnd_def alloc_def ret_def)
      have "m @ [length (heap w1)] = [?l..<?l + Suc i]"
        using a rows m by simp
      moreover have "heap ?w2 = heap w0 @ (rows @ [row])" using a rows by simp
      moreover have "\<forall>r\<in>set (rows @ [row]). length r = 30" using a rows by simp
      moreover have "known E (\<forall>y<Suc i. \<forall>x<30. (rows @ [row]) ! y ! x = generated c y x)"
        using a rows by (auto simp: known_def nth_append less_Suc_eq)
      moreover have "fed E c (30 * (30 - Suc i) + k) (tape ?w2)" using a by (simp add: kk_def)
      moreover have "length (rows @ [row]) = Suc i" using rows by simp
      ultimately have "I (Suc i) (m @ [length (heap w1)]) ?w2"
        unfolding I_def by blast
      then show "outcome E (I (Suc i)) (bnd (alloc row) (\<lambda>a. ret (m @ [a])) w1)"
        by (simp add: run)
    qed
    then show "outcome E (I (Suc i))
     (bnd (for_loop [0..<MAP_WIDTH] (\<lambda>x row.
              if x = 0 \<or> x = MAP_WIDTH - 1 \<or> i = 0 \<or> i = MAP_HEIGHT - 1
              then ret (row @ [MOUNTAIN])
              else bnd (randint 0 3) (\<lambda>v. ret (row @ [tile_of_int v]))) [])
         (\<lambda>row.
       bnd (alloc row) (\<lambda>a.
       ret (m @ [a]))) w)"
      by (simp add: outcome_bnd)
  qed
  have main: "hoare E (I 0 []) generate_random_map (I 30)"
    unfolding generate_random_map_def
    by (rule hoare_for_upt) (rule step)
  have post: "fresh_map w0 w g \<and> fed E c k (tape w)
        \<and> known E (\<forall>y<30. \<forall>x<30. tile_at w g y x = generated c y x)" if "I 30 g w" for g w
  proof -
    from that obtain rows where rows: "heap w = heap w0 @ rows" "length rows = 30"
      "\<forall>r\<in>set rows. length r = 30" "known E (\<forall>y<30. \<forall>x<30. rows ! y ! x = generated c y x)"
      and g: "g = [?l..<?l + 30]" and f: "fed E c k (tape w)"
      by (auto simp: I_def)
    have "tile_at w g y x = rows ! y ! x" if "y < 30" for y x
      using that rows g by (simp add: tile_at_def nth_append)
    then have "known E (\<forall>y<30. \<forall>x<30. tile_at w g y x = generated c y x)"
      using rows(4) by (simp add: known_def)
    then show ?thesis using rows g f unfolding fresh_map_def by blast
  qed
  show ?thesis
  proof (rule hoare_weaken [OF main])
    show "I 0 [] w" if "w = w0 \<and> fed E c (900 + k) (tape w0)" for w
      using that by (simp add: I_def known_def)
  qed (use post in auto)
qed

subsection \<open>The whole pass: new_individual and mutate\<close>

lemma circle_not_border: "circle y x \<Longrightarrow> \<not> border y x"
proof
  assume c: "circle y x" and b: "border y x"
  have sq: "0 \<le> (int x - 15)\<^sup>2" "0 \<le> (int y - 15)\<^sup>2" by simp_all
  from b consider "y = 0" | "y = 29" | "x = 0" | "x = 29" by (auto simp: border_def)
  then show False
    using c sq by cases (simp_all add: circle_def is_in_central_circle_def)
qed

lemma enforce_returns:
  assumes "valid g w0"
  shows "\<exists>w. enforce_constraints g w0 = Inr ((), w) \<and> valid g w \<and> writes_only g w0 w
           \<and> tape w = tape w0
           \<and> (\<forall>y<30. \<forall>x<30. tile_at w g y x = enforced y x (tile_at w0 g y x))"
  using hoare_returns [OF hoare_enforce_constraints [of never w0 g], of w0] assms by auto

lemma river_returns:
  assumes "valid g w0"
  shows "\<exists>w. place_river g w0 = Inr ((), w) \<and> valid g w \<and> writes_only g w0 w
           \<and> tape w = tape w0
           \<and> (\<forall>y<30. \<forall>x<30. tile_at w g y x = (if in_band y x then RIVER else tile_at w0 g y x))"
  using hoare_returns [OF hoare_place_river [of never w0 g], of w0] assms by auto

lemma clear_returns:
  assumes "valid g w0"
  shows "\<exists>w. clear_rocks g w0 = Inr ((), w) \<and> valid g w \<and> writes_only g w0 w
           \<and> tape w = tape w0
           \<and> (\<forall>y<30. \<forall>x<30. tile_at w g y x
                 = (if tile_at w0 g y x = ROCK then PLAINS else tile_at w0 g y x))"
  using hoare_returns [OF hoare_clear_rocks [of never w0 g], of w0] assms by auto

lemma seed_in_range: "seed_of c < 30" "target_of c < 30" "0 < target_of c"
  by (simp_all add: seed_of_def target_of_def)

lemma shaped_seed: "circle y x \<Longrightarrow> shaped y x t \<noteq> MOUNTAIN"
  using circle_not_border [of y x] by (simp add: shaped_def)

lemma rock_cells_none:
  assumes "\<forall>y<30. \<forall>x<30. tile_at w g y x \<noteq> ROCK"
  shows "rock_cells w g = 0"
proof -
  have "{(y, x). y < 30 \<and> x < 30 \<and> tile_at w g y x = ROCK} = {}"
    using assms by auto
  then show ?thesis unfolding rock_cells_def by (simp only: card.empty)
qed

lemma constrained_rocks:
  assumes s: "\<forall>y<30. \<forall>x<30. tile_at w1 g y x = shaped y x (t y x)"
    and r: "only_rocks_added g w1 w"
  shows "constrained w g"
  unfolding constrained_def
proof (intro allI impI)
  fix y x :: nat assume yx: "y < 30" "x < 30"
  have t1: "tile_at w1 g y x = shaped y x (t y x)" using s yx by simp
  have "tile_at w g y x = tile_at w1 g y x \<or> (tile_at w1 g y x = PLAINS \<and> tile_at w g y x = ROCK)"
    using r yx unfolding only_rocks_added_def by blast
  then show "(in_band y x \<longrightarrow> tile_at w g y x = RIVER) \<and>
        (\<not> in_band y x \<and> border y x \<longrightarrow> tile_at w g y x = MOUNTAIN) \<and>
        (\<not> in_band y x \<and> \<not> border y x \<and> circle y x
           \<longrightarrow> tile_at w g y x = PLAINS \<or> tile_at w g y x = ROCK)"
    unfolding t1 by (auto simp: shaped_def)
qed

lemma outcome_seq: "outcome E Q (seq m n w) = outcome E (\<lambda>_ w'. outcome E Q (n w')) (m w)"
  by (simp add: seq_def outcome_bnd)

lemma fresh_map_writes:
  assumes f: "fresh_map w0 w1 g" and wo: "writes_only g w1 w"
  shows "fresh_map w0 w g"
proof -
  let ?l = "length (heap w0)"
  from f obtain rows where rows: "heap w1 = heap w0 @ rows" "length rows = 30"
    "\<forall>r\<in>set rows. length r = 30" and g: "g = [?l..<?l + 30]"
    by (auto simp: fresh_map_def)
  have len: "length (heap w) = ?l + 30" using wo rows by (simp add: writes_only_def)
  have old: "take ?l (heap w) = heap w0"
  proof (rule nth_equalityI)
    show "length (take ?l (heap w)) = length (heap w0)" using len by simp
  next
    fix i assume "i < length (take ?l (heap w))"
    then have i: "i < ?l" by simp
    then have "i \<notin> set g" using g by simp
    then have "heap w ! i = heap w1 ! i" using wo by (simp add: writes_only_def)
    then show "take ?l (heap w) ! i = heap w0 ! i" using i rows by (simp add: nth_append)
  qed
  have "heap w = heap w0 @ drop ?l (heap w)"
    using old append_take_drop_id [of ?l "heap w"] by simp
  moreover have "length (drop ?l (heap w)) = 30" using len by simp
  moreover have "\<forall>r\<in>set (drop ?l (heap w)). length r = 30"
  proof
    fix r assume "r \<in> set (drop ?l (heap w))"
    then obtain i where i: "i < 30" "r = heap w ! (?l + i)"
      using len by (auto simp: in_set_conv_nth)
    have "length (heap w ! (?l + i)) = length (heap w1 ! (?l + i))"
      using wo by (simp add: writes_only_def)
    also have "\<dots> = length (rows ! i)" using rows by (simp add: nth_append)
    also have "\<dots> = 30" using rows i by simp
    finally show "length r = 30" using i by simp
  qed
  ultimately show ?thesis using g unfolding fresh_map_def by blast
qed

text \<open>
  The constraint steps up to the rocks always return on a well-formed map, and leave
  every cell \<open>shaped\<close>.
\<close>

lemma shape_returns:
  assumes v: "valid g w1"
  shows "\<exists>w3. enforce_constraints g w1 = Inr ((), w3)
           \<and> (\<exists>w4. place_river g w3 = Inr ((), w4) \<and> valid g w4 \<and> writes_only g w1 w4
                 \<and> tape w4 = tape w1
                 \<and> (\<forall>y<30. \<forall>x<30. tile_at w4 g y x = shaped y x (tile_at w1 g y x)))"
proof -
  from enforce_returns [OF v] obtain w3 where w3: "enforce_constraints g w1 = Inr ((), w3)"
    "valid g w3" "writes_only g w1 w3" "tape w3 = tape w1"
    "\<forall>y<30. \<forall>x<30. tile_at w3 g y x = enforced y x (tile_at w1 g y x)" by blast
  from river_returns [OF w3(2)] obtain w4 where w4: "place_river g w3 = Inr ((), w4)"
    "valid g w4" "writes_only g w3 w4" "tape w4 = tape w3"
    "\<forall>y<30. \<forall>x<30. tile_at w4 g y x = (if in_band y x then RIVER else tile_at w3 g y x)"
    by blast
  have "\<forall>y<30. \<forall>x<30. tile_at w4 g y x = shaped y x (tile_at w1 g y x)"
    using w3(5) w4(5) by (simp add: shaped_def enforced_def)
  moreover have "writes_only g w1 w4" using w3(3) w4(3) by (rule writes_only_trans)
  ultimately show ?thesis using w3 w4 by auto
qed

lemma hoare_new_individual:
  "hoare E (\<lambda>w. w = w0 \<and> fed E c (1004 + k) (tape w0)
               \<and> known E (circle (seed_of c) (seed_of c)))
     new_individual
     (\<lambda>g w. fresh_map w0 w g \<and> constrained w g \<and> fed E c k (tape w)
        \<and> known E (\<forall>y<30. \<forall>x<30.
              tile_at w g y x = shaped y x (generated c y x) \<or>
              (shaped y x (generated c y x) = PLAINS \<and> tile_at w g y x = ROCK))
        \<and> known E (tile_at w g (target_of c) (target_of c) \<noteq> PLAINS))"
  unfolding hoare_outcome new_individual_def
proof (intro allI impI)
  fix w assume pre: "w = w0 \<and> fed E c (1004 + k) (tape w0)
               \<and> known E (circle (seed_of c) (seed_of c))"
  let ?s = "seed_of c"
  let ?Q = "\<lambda>g w. fresh_map w0 w g \<and> constrained w g \<and> fed E c k (tape w)
        \<and> known E (\<forall>y<30. \<forall>x<30.
              tile_at w g y x = shaped y x (generated c y x) \<or>
              (shaped y x (generated c y x) = PLAINS \<and> tile_at w g y x = ROCK))
        \<and> known E (tile_at w g (target_of c) (target_of c) \<noteq> PLAINS)"
  have "outcome E (\<lambda>g w1. outcome E ?Q
          (seq (enforce_constraints g)
          (seq (place_river g)
          (seq (place_rocks g 8) (ret g))) w1)) (generate_random_map w)"
  proof (rule outcome_mono [OF outcome_hoare
        [OF hoare_generate_random_map [of E w0 c "104 + k"]]])
    show "w = w0 \<and> fed E c (900 + (104 + k)) (tape w0)" using pre by simp
  next
    fix g and w1 :: world
    assume a: "fresh_map w0 w1 g \<and> fed E c (104 + k) (tape w1)
        \<and> known E (\<forall>y<30. \<forall>x<30. tile_at w1 g y x = generated c y x)"
    then have v1: "valid g w1" using fresh_map_valid by blast
    from shape_returns [OF v1] obtain w3 w4 where
      w3: "enforce_constraints g w1 = Inr ((), w3)" and
      w4: "place_river g w3 = Inr ((), w4)" "valid g w4" "writes_only g w1 w4"
        "tape w4 = tape w1"
        "\<forall>y<30. \<forall>x<30. tile_at w4 g y x = shaped y x (tile_at w1 g y x)"
      by blast
    have nm: "known E (tile_at w4 g ?s ?s \<noteq> MOUNTAIN)"
      using pre w4(5) seed_in_range(1) [of c] shaped_seed [of ?s ?s]
      by (auto simp: known_def)
    have "outcome E (\<lambda>_ w5. ?Q g w5) (place_rocks g 8 w4)"
    proof (rule outcome_mono [OF outcome_hoare [OF hoare_place_rocks [of E w4 g c 8 k]]])
      show "w4 = w4 \<and> valid g w4 \<and> fed E c (13 * 8 + k) (tape w4)
              \<and> known E (tile_at w4 g ?s ?s \<noteq> MOUNTAIN)"
        using w4 a nm by simp
    next
      fix u :: unit and w5 :: world
      assume r: "valid g w5 \<and> writes_only g w4 w5 \<and> only_rocks_added g w4 w5
        \<and> rock_cells w5 g \<le> rock_cells w4 g + 5 * 8 \<and> fed E c k (tape w5)
        \<and> ((0::nat) < 8 \<longrightarrow> known E (tile_at w5 g (target_of c) (target_of c) \<noteq> PLAINS))"
      have "writes_only g w1 w5" using w4(3) r by (blast intro: writes_only_trans)
      then have fm: "fresh_map w0 w5 g" using a fresh_map_writes by blast
      have con: "constrained w5 g" using constrained_rocks [OF w4(5)] r by blast
      have cells: "\<forall>y<30. \<forall>x<30. tile_at w5 g y x = tile_at w4 g y x
             \<or> (tile_at w4 g y x = PLAINS \<and> tile_at w5 g y x = ROCK)"
        using r unfolding only_rocks_added_def by blast
      have kn: "known E (\<forall>y<30. \<forall>x<30.
              tile_at w5 g y x = shaped y x (generated c y x) \<or>
              (shaped y x (generated c y x) = PLAINS \<and> tile_at w5 g y x = ROCK))"
      proof (cases "E OutOfDraws")
        case True then show ?thesis by (simp add: known_def)
      next
        case False
        then have "\<forall>y<30. \<forall>x<30. tile_at w4 g y x = shaped y x (generated c y x)"
          using a w4(5) by (simp add: known_def)
        then show ?thesis using cells by (simp add: known_def)
      qed
      show "?Q g w5" using fm con r kn by simp
    qed
    moreover have "seq (enforce_constraints g)
          (seq (place_river g)
          (seq (place_rocks g 8) (ret g))) w1 = seq (place_rocks g 8) (ret g) w4"
      by (simp add: seq_def bnd_def w3 w4(1))
    ultimately show "outcome E ?Q
          (seq (enforce_constraints g)
          (seq (place_river g)
          (seq (place_rocks g 8) (ret g))) w1)"
      by (simp add: outcome_seq ret_def)
  qed
  then show "outcome E ?Q
     (bnd generate_random_map (\<lambda>individual.
     seq (enforce_constraints individual)
    (seq (place_river individual)
    (seq (place_rocks individual 8)
         (ret individual)))) w)"
    by (simp add: outcome_bnd)
qed

lemma hoare_mutate:
  "hoare E (\<lambda>w. w = w0 \<and> valid g w0 \<and> fed E c (1904 + k) (tape w0)
               \<and> known E (circle (seed_of c) (seed_of c)))
     (mutate g)
     (\<lambda>r w. r = g \<and> valid g w \<and> writes_only g w0 w \<and> constrained w g
        \<and> rock_cells w g \<le> 40 \<and> fed E c k (tape w)
        \<and> known E (tile_at w g (target_of c) (target_of c) \<noteq> PLAINS)
        \<and> known E (\<not> c mod 100 < 3 \<longrightarrow> (\<forall>y<30. \<forall>x<30.
              tile_at w g y x = shaped y x (cleared (tile_at w0 g y x)) \<or>
              (shaped y x (cleared (tile_at w0 g y x)) = PLAINS \<and> tile_at w g y x = ROCK))))"
  unfolding hoare_outcome mutate_def
proof (intro allI impI)
  fix w assume pre: "w = w0 \<and> valid g w0 \<and> fed E c (1904 + k) (tape w0)
               \<and> known E (circle (seed_of c) (seed_of c))"
  let ?s = "seed_of c"
  let ?Q = "\<lambda>r w. r = g \<and> valid g w \<and> writes_only g w0 w \<and> constrained w g
        \<and> rock_cells w g \<le> 40 \<and> fed E c k (tape w)
        \<and> known E (tile_at w g (target_of c) (target_of c) \<noteq> PLAINS)
        \<and> known E (\<not> c mod 100 < 3 \<longrightarrow> (\<forall>y<30. \<forall>x<30.
              tile_at w g y x = shaped y x (cleared (tile_at w0 g y x)) \<or>
              (shaped y x (cleared (tile_at w0 g y x)) = PLAINS \<and> tile_at w g y x = ROCK)))"
  have "outcome E (\<lambda>_ w1. outcome E ?Q
          (seq (enforce_constraints g)
          (seq (place_river g)
          (seq (clear_rocks g)
          (seq (place_rocks g 8) (ret g)))) w1)) (mutate_cells g w)"
  proof (rule outcome_mono [OF outcome_hoare [OF hoare_mutate_cells [of E w0 g c "104 + k"]]])
    show "w = w0 \<and> valid g w0 \<and> fed E c (1800 + (104 + k)) (tape w0)" using pre by simp
  next
    fix u :: unit and w1 :: world
    assume a: "valid g w1 \<and> writes_only g w0 w1 \<and> fed E c (104 + k) (tape w1)
        \<and> (\<forall>y<30. \<forall>x<30. known E (\<not> c mod 100 < 3 \<longrightarrow> tile_at w1 g y x = tile_at w0 g y x))"
    then have v1: "valid g w1" by simp
    from shape_returns [OF v1] obtain w3 w4 where
      w3: "enforce_constraints g w1 = Inr ((), w3)" and
      w4: "place_river g w3 = Inr ((), w4)" "valid g w4" "writes_only g w1 w4"
        "tape w4 = tape w1"
        "\<forall>y<30. \<forall>x<30. tile_at w4 g y x = shaped y x (tile_at w1 g y x)"
      by blast
    from clear_returns [OF w4(2)] obtain w5 where
      w5: "clear_rocks g w4 = Inr ((), w5)" "valid g w5" "writes_only g w4 w5"
        "tape w5 = tape w4"
        "\<forall>y<30. \<forall>x<30. tile_at w5 g y x
             = (if tile_at w4 g y x = ROCK then PLAINS else tile_at w4 g y x)"
      by blast
    have sh: "\<forall>y<30. \<forall>x<30. tile_at w5 g y x = shaped y x (cleared (tile_at w1 g y x))"
      using w4(5) w5(5) by (auto simp: shaped_def cleared_def)
    have none: "rock_cells w5 g = 0"
      by (rule rock_cells_none) (use w5(5) in auto)
    have nm: "known E (tile_at w5 g ?s ?s \<noteq> MOUNTAIN)"
      using pre sh seed_in_range(1) [of c] shaped_seed [of ?s ?s]
      by (auto simp: known_def)
    have "outcome E (\<lambda>_ w6. ?Q g w6) (place_rocks g 8 w5)"
    proof (rule outcome_mono [OF outcome_hoare [OF hoare_place_rocks [of E w5 g c 8 k]]])
      show "w5 = w5 \<and> valid g w5 \<and> fed E c (13 * 8 + k) (tape w5)
              \<and> known E (tile_at w5 g ?s ?s \<noteq> MOUNTAIN)"
        using w4 w5 a nm by simp
    next
      fix u :: unit and w6 :: world
      assume r: "valid g w6 \<and> writes_only g w5 w6 \<and> only_rocks_added g w5 w6
        \<and> rock_cells w6 g \<le> rock_cells w5 g + 5 * 8 \<and> fed E c k (tape w6)
        \<and> ((0::nat) < 8 \<longrightarrow> known E (tile_at w6 g (target_of c) (target_of c) \<noteq> PLAINS))"
      have "writes_only g w0 w6"
        using a w4(3) w5(3) r by (blast intro: writes_only_trans)
      moreover have "constrained w6 g" using constrained_rocks [OF sh] r by blast
      moreover have "rock_cells w6 g \<le> 40" using r none by simp
      moreover have "known E (\<not> c mod 100 < 3 \<longrightarrow> (\<forall>y<30. \<forall>x<30.
              tile_at w6 g y x = shaped y x (cleared (tile_at w0 g y x)) \<or>
              (shaped y x (cleared (tile_at w0 g y x)) = PLAINS \<and> tile_at w6 g y x = ROCK)))"
      proof (cases "E OutOfDraws \<or> c mod 100 < 3")
        case True then show ?thesis by (auto simp: known_def)
      next
        case False
        then have same: "\<forall>y<30. \<forall>x<30. tile_at w1 g y x = tile_at w0 g y x"
          using a by (simp add: known_def)
        have cells: "\<forall>y<30. \<forall>x<30. tile_at w6 g y x = tile_at w5 g y x
             \<or> (tile_at w5 g y x = PLAINS \<and> tile_at w6 g y x = ROCK)"
          using r unfolding only_rocks_added_def by blast
        show ?thesis using cells sh same by (simp add: known_def)
      qed
      ultimately show "?Q g w6" using r by simp
    qed
    moreover have "seq (enforce_constraints g)
          (seq (place_river g)
          (seq (clear_rocks g)
          (seq (place_rocks g 8) (ret g)))) w1 = seq (place_rocks g 8) (ret g) w5"
      by (simp add: seq_def bnd_def w3 w4(1) w5(1))
    ultimately show "outcome E ?Q
          (seq (enforce_constraints g)
          (seq (place_river g)
          (seq (clear_rocks g)
          (seq (place_rocks g 8) (ret g)))) w1)"
      by (simp add: outcome_seq ret_def)
  qed
  then show "outcome E ?Q
     (seq (mutate_cells g)
    (seq (enforce_constraints g)
    (seq (place_river g)
    (seq (clear_rocks g)
    (seq (place_rocks g 8)
         (ret g))))) w)"
    by (simp add: outcome_seq)
qed

subsection \<open>What a pass returns, and that it returns\<close>

lemma fed_starved [simp]: "fed starved c k t"
  by (simp add: fed_def starved_def)

lemma known_starved [simp]: "known starved A"
  by (simp add: known_def starved_def)

lemma known_never [simp]: "known never A = A"
  by (simp add: known_def never_def)

lemma fed_never: "fed never c k t \<longleftrightarrow> (\<exists>n\<ge>k. t = replicate n c)"
  by (simp add: fed_def never_def)

lemma new_individual_partial:
  assumes "new_individual w0 = Inr (g, w)"
  shows "fresh_map w0 w g \<and> constrained w g"
  using hoareD [OF hoare_new_individual [of starved w0 0 0], of w0 g w] assms by simp

lemma mutate_partial:
  assumes "valid g w0" "mutate g w0 = Inr (r, w)"
  shows "r = g \<and> valid g w \<and> writes_only g w0 w \<and> constrained w g \<and> rock_cells w g \<le> 40"
  using hoareD [OF hoare_mutate [of starved w0 g 0 0], of w0 r w] assms by simp

lemma new_individual_total:
  assumes "tape w0 = replicate n c" "1004 + k \<le> n" "circle (seed_of c) (seed_of c)"
  shows "\<exists>g w. new_individual w0 = Inr (g, w) \<and> fresh_map w0 w g \<and> constrained w g
           \<and> (\<exists>m\<ge>k. tape w = replicate m c)
           \<and> (\<forall>y<30. \<forall>x<30.
                 tile_at w g y x = shaped y x (generated c y x) \<or>
                 (shaped y x (generated c y x) = PLAINS \<and> tile_at w g y x = ROCK))
           \<and> tile_at w g (target_of c) (target_of c) \<noteq> PLAINS"
proof -
  have "fed never c (1004 + k) (tape w0)" using assms by (auto simp: fed_never)
  from hoare_returns [OF hoare_new_individual [of never w0 c k], of w0] this assms(3)
  show ?thesis by (simp add: fed_never)
qed

lemma mutate_total:
  assumes "valid g w0" "tape w0 = replicate n c" "1904 + k \<le> n"
    "circle (seed_of c) (seed_of c)"
  shows "\<exists>w. mutate g w0 = Inr (g, w) \<and> valid g w \<and> constrained w g
           \<and> rock_cells w g \<le> 40 \<and> (\<exists>m\<ge>k. tape w = replicate m c)
           \<and> tile_at w g (target_of c) (target_of c) \<noteq> PLAINS"
proof -
  have "fed never c (1904 + k) (tape w0)" using assms by (auto simp: fed_never)
  from hoare_returns [OF hoare_mutate [of never w0 g c k], of w0] this assms(1,4)
  show ?thesis by (auto simp: fed_never)
qed

lemma after_pass_constrained: "after_pass w0 g w \<Longrightarrow> valid g w \<and> constrained w g"
  unfolding after_pass_def
  using new_individual_partial [of w0 g w] mutate_partial [of g w0 g w] fresh_map_valid
  by blast

lemma circle_5: "circle (seed_of 5) (seed_of 5)" "circle (seed_of 6) (seed_of 6)"
  by (simp_all add: circle_def seed_of_def is_in_central_circle_def)

lemma fresh_map_empty: "heap w0 = [] \<Longrightarrow> fresh_map w0 w g \<Longrightarrow> g = [0..<30]"
  by (simp add: fresh_map_def)

text \<open>A run of both passes on a tape of fives: a new individual, then its mutation.\<close>

lemma example_passes:
  "\<exists>w w'. new_individual fives = Inr ([0..<30], w) \<and> valid [0..<30] w
      \<and> mutate [0..<30] w = Inr ([0..<30], w')
      \<and> tile_at w [0..<30] 11 11 = ROCK"
proof -
  from new_individual_total [of fives 2908 5 1904] circle_5
  obtain g w where n: "new_individual fives = Inr (g, w)" "fresh_map fives w g"
    "constrained w g" "\<exists>m\<ge>1904. tape w = replicate m 5"
    "tile_at w g (target_of 5) (target_of 5) \<noteq> PLAINS"
    by (auto simp: fives_def)
  have g: "g = [0..<30]" using fresh_map_empty [OF _ n(2)] by (simp add: fives_def)
  have v: "valid g w" using n(2) by (rule fresh_map_valid)
  from n(4) obtain m where m: "1904 \<le> m" "tape w = replicate m 5" by blast
  from mutate_total [OF v m(2), of 0] m(1) circle_5
  obtain w' where "mutate g w = Inr (g, w')" by auto
  moreover have "tile_at w g 11 11 = ROCK"
  proof -
    have "\<not> in_band 11 11 \<and> \<not> border 11 11 \<and> circle 11 11"
      by (simp add: in_band_def get_river_row_def river_rows_def border_def circle_def
            is_in_central_circle_def)
    then have "tile_at w g 11 11 = PLAINS \<or> tile_at w g 11 11 = ROCK"
      using n(3) unfolding constrained_def by auto
    moreover have "target_of 5 = 11" by (simp add: target_of_def seed_of_def)
    ultimately show ?thesis using n(5) by auto
  qed
  ultimately show ?thesis using n(1) v g by auto
qed

lemma cell_tile:
  "valid g w \<Longrightarrow> y < 30 \<Longrightarrow> x < 30 \<Longrightarrow> cell g (int y) (int x) w = Inr (t, w) \<longleftrightarrow> tile_at w g y x = t"
  by (simp add: cell_nat)

lemma band_facts:
  "in_band 15 0" "in_band 15 15" "\<not> in_band 0 0" "\<not> in_band 2 2" "\<not> in_band 11 11"
  by (simp_all add: in_band_def get_river_row_def river_rows_def)

lemma in_band_column: "x < 30 \<Longrightarrow> in_band y x \<Longrightarrow> border y x \<Longrightarrow> x = 0 \<or> x = 29"
  using in_band_rows [of x y] by (auto simp: border_def)


lemma example_river:
  "\<exists>w. new_individual sixes = Inr ([0..<30], w) \<and> valid [0..<30] w
      \<and> tile_at w [0..<30] 2 2 = RIVER"
proof -
  from new_individual_total [of sixes 1004 6 0] circle_5
  obtain g w where n: "new_individual sixes = Inr (g, w)" "fresh_map sixes w g"
    "\<forall>y<30. \<forall>x<30. tile_at w g y x = shaped y x (generated 6 y x) \<or>
                 (shaped y x (generated 6 y x) = PLAINS \<and> tile_at w g y x = ROCK)"
    by (auto simp: sixes_def)
  have g: "g = [0..<30]" using fresh_map_empty [OF _ n(2)] by (simp add: sixes_def)
  have "shaped 2 2 (generated 6 2 2) = RIVER"
    by (simp add: shaped_def generated_def band_facts border_def circle_def
          is_in_central_circle_def tile_of_int_def)
  then have "tile_at w g 2 2 = RIVER" using n(3) [rule_format, of 2 2] by simp
  then show ?thesis using n(1) fresh_map_valid [OF n(2)] g by auto
qed

subsection \<open>calculate_fitness\<close>

lemma sum_loop:
  assumes "\<And>i acc. i < n \<Longrightarrow> body i acc w = Inr (acc + f i, w)"
  shows "for_loop [0..<n] body acc w = Inr (acc + (\<Sum>i<n. f i), (w::world))"
  using assms
proof (induction n)
  case 0
  show ?case by (simp add: ret_def)
next
  case (Suc n)
  have "for_loop [0..<n] body acc w = Inr (acc + (\<Sum>i<n. f i), w)"
    using Suc.IH Suc.prems by simp
  then show ?case
    using Suc.prems [of n] by (simp add: for_loop_snoc bnd_def add.assoc)
qed

lemma fitness_central_eq:
  assumes "valid g w"
  shows "fitness_central g s w = Inr (s + central_term w g, w)"
  unfolding fitness_central_def central_term_def
proof (rule sum_loop)
  fix y and acc :: int assume y: "y < MAP_HEIGHT"
  show "for_loop [0..<MAP_WIDTH] (\<lambda>x score.
         if is_in_central_circle (int x) (int y) 15 8
         then bnd (cell g (int y) (int x)) (\<lambda>v.
              if v = PLAINS then ret (score + 1) else ret (score - 1))
         else ret score) acc w
        = Inr (acc + (\<Sum>x<MAP_WIDTH. if is_in_central_circle (int x) (int y) 15 8
                  then (if tile_at w g y x = PLAINS then 1 else - 1) else 0), w)"
    by (rule sum_loop) (simp add: bnd_def ret_def cell_nat [OF assms y])
qed

lemma fitness_mountains_eq:
  assumes "valid g w"
  shows "fitness_mountains g s w = Inr (s + mountain_term w g, w)"
  unfolding fitness_mountains_def mountain_term_def
proof (rule sum_loop)
  fix x and acc :: int assume x: "x < MAP_WIDTH"
  show "for_loop [0..<MAP_HEIGHT] (\<lambda>y score.
         bnd (cell g (int y) (int x)) (\<lambda>v.
         if v = MOUNTAIN
         then (if is_in_central_circle (int x) (int y) 15 13
               then ret (score - 10) else ret (score + 5))
         else ret score)) acc w
        = Inr (acc + (\<Sum>y<MAP_HEIGHT. if tile_at w g y x = MOUNTAIN
        then (if is_in_central_circle (int x) (int y) 15 13 then - 10 else 5) else 0), w)"
    by (rule sum_loop) (simp add: bnd_def ret_def cell_nat [OF assms _ x])
qed

declare found_river_in_band.simps [simp del]

lemma found_river_eq:
  assumes v: "valid g w" and x: "x < 30"
  shows "found_river_in_band g x (get_river_row x) [-1, 0, 1] w
           = Inr (\<exists>y<30. in_band y x \<and> tile_at w g y x = RIVER, w)"
proof -
  define r where "r = get_river_row x"
  have r: "12 \<le> r" "r \<le> 17" using river_row_range [OF x] by (simp_all add: r_def)
  have band: "(\<exists>y<30. in_band y x \<and> tile_at w g y x = RIVER)
     \<longleftrightarrow> tile_at w g (nat (r - 1)) x = RIVER \<or> tile_at w g (nat r) x = RIVER
          \<or> tile_at w g (nat (r + 1)) x = RIVER"
  proof -
    have lt: "nat (r - 1) < 30" "nat r < 30" "nat (r + 1) < 30" using r by simp_all
    have eq: "in_band y x \<longleftrightarrow> y = nat (r - 1) \<or> y = nat r \<or> y = nat (r + 1)" for y
      using in_band_nat [OF x, of y] by (simp add: r_def)
    show ?thesis using lt by (auto simp: eq)
  qed
  have rd: "cell g (r - 1) (int x) w = Inr (tile_at w g (nat (r - 1)) x, w)"
    "cell g r (int x) w = Inr (tile_at w g (nat r) x, w)"
    "cell g (r + 1) (int x) w = Inr (tile_at w g (nat (r + 1)) x, w)"
    using cell_valid [OF v, of _ "int x"] r x by simp_all
  show ?thesis
    unfolding band r_def [symmetric]
    using r rd by (simp add: found_river_in_band.simps Let_def bnd_def ret_def)
qed

lemma fitness_river_eq:
  assumes "valid g w"
  shows "fitness_river g s w = Inr (s + river_term w g, w)"
  unfolding fitness_river_def river_term_def
proof (rule sum_loop)
  fix x and acc :: int assume x: "x < MAP_WIDTH"
  show "bnd (found_river_in_band g x (get_river_row x) [-1, 0, 1]) (\<lambda>found.
       if found then ret (acc + 50) else ret (acc - 500)) w
       = Inr (acc + (if (\<exists>y<MAP_HEIGHT. in_band y x \<and> tile_at w g y x = RIVER)
                     then 50 else - 500), w)"
    unfolding bnd_def found_river_eq [OF assms x] by (auto simp: ret_def)
qed

lemma rock_cells_sum:
  "int (rock_cells w g) = (\<Sum>y<30. \<Sum>x<30. if tile_at w g y x = ROCK then 1 else 0)"
proof -
  let ?P = "\<lambda>y x. tile_at w g y x = ROCK"
  have "{(y, x). y < 30 \<and> x < 30 \<and> ?P y x} = (SIGMA y:{..<30}. {x\<in>{..<30}. ?P y x})"
    by auto
  then have "rock_cells w g = (\<Sum>y<30. card {x\<in>{..<30}. ?P y x})"
    by (simp add: rock_cells_def)
  also have "\<dots> = (\<Sum>y<30. \<Sum>x<30. if ?P y x then 1 else 0)"
    by (simp only: card_eq_sum sum.inter_filter [OF finite_lessThan])
  finally have "rock_cells w g = (\<Sum>y<30. \<Sum>x<30. if ?P y x then 1 else 0)" .
  moreover have "int (if b then 1 else 0) = (if b then 1 else 0)" for b by simp
  ultimately show ?thesis by simp
qed

lemma count_rocks_eq:
  assumes "valid g w"
  shows "count_rocks g w = Inr (int (rock_cells w g), w)"
proof -
  have "count_rocks g w = Inr (0 + (\<Sum>y<30. \<Sum>x<30. if tile_at w g y x = ROCK then 1 else 0), w)"
    unfolding count_rocks_def
  proof (rule sum_loop)
    fix y and acc :: int assume y: "y < MAP_HEIGHT"
    show "for_loop [0..<MAP_WIDTH] (\<lambda>x rock_count.
         bnd (cell g (int y) (int x)) (\<lambda>v.
         if v = ROCK then ret (rock_count + 1) else ret rock_count)) acc w
        = Inr (acc + (\<Sum>x<30. if tile_at w g y x = ROCK then 1 else 0), w)"
      by (rule sum_loop) (simp add: bnd_def ret_def cell_nat [OF assms y])
  qed
  then show ?thesis by (simp add: rock_cells_sum)
qed

lemma calculate_fitness_eq:
  assumes "valid g w"
  shows "calculate_fitness g w = Inr (score w g, w)"
  by (simp add: calculate_fitness_def bnd_def fitness_central_eq [OF assms]
        fitness_mountains_eq [OF assms] fitness_river_eq [OF assms] count_rocks_eq [OF assms]
        ret_def score_def rock_term_def Let_def)

lemma circle_count:
  "(\<Sum>y<30. \<Sum>x<30. if is_in_central_circle (int x) (int y) 15 8 then 1 else 0) = (197::int)"
  by code_simp

lemma valid_plains_world: "valid [0..<30] plains_world"
  by (auto simp: valid_def plains_world_def)

lemma tile_at_plains_world:
  "y < 30 \<Longrightarrow> x < 30 \<Longrightarrow> tile_at plains_world [0..<30] y x = PLAINS"
  by (simp add: tile_at_def plains_world_def)

lemma score_plains_world:
  "central_term plains_world [0..<30] = 197" "mountain_term plains_world [0..<30] = 0"
  "river_term plains_world [0..<30] = - 15000" "rock_term plains_world [0..<30] = - 22"
proof -
  have "central_term plains_world [0..<30]
      = (\<Sum>y<30. \<Sum>x<30. if is_in_central_circle (int x) (int y) 15 8 then 1 else 0)"
    unfolding central_term_def
    by (intro sum.cong refl) (simp add: tile_at_plains_world)
  then show "central_term plains_world [0..<30] = 197" by (simp only: circle_count)
  have "mountain_term plains_world [0..<30] = (\<Sum>x<(30::nat). \<Sum>y<(30::nat). 0)"
    unfolding mountain_term_def
    by (intro sum.cong refl) (simp add: tile_at_plains_world)
  then show "mountain_term plains_world [0..<30] = 0" by simp
  have "river_term plains_world [0..<30] = (\<Sum>x<(30::nat). - 500)"
    unfolding river_term_def
    by (intro sum.cong refl) (auto simp: tile_at_plains_world)
  then show "river_term plains_world [0..<30] = - 15000" by simp
  have "rock_cells plains_world [0..<30] = 0"
    by (rule rock_cells_none) (simp add: tile_at_plains_world)
  then show "rock_term plains_world [0..<30] = - 22" by (simp add: rock_term_def)
qed

section \<open>Populations and generations\<close>

lemma extends_refl [simp]: "extends w w"
  by (simp add: extends_def)

lemma extends_trans: "extends w0 w1 \<Longrightarrow> extends w1 w2 \<Longrightarrow> extends w0 w2"
  by (auto simp: extends_def)

lemma extends_tape [simp]: "extends w0 (w\<lparr>tape := t\<rparr>) = extends w0 w"
  by (simp add: extends_def)

lemma extends_heap: "heap w = heap w' \<Longrightarrow> extends w0 w = extends w0 w'"
  by (simp add: extends_def)

lemma fresh_map_extends: "fresh_map w0 w g \<Longrightarrow> extends w0 w"
  by (auto simp: fresh_map_def extends_def)

lemma extends_nth: "extends w0 w \<Longrightarrow> a < length (heap w0) \<Longrightarrow> heap w ! a = heap w0 ! a"
  by (auto simp: extends_def nth_append)

lemma extends_valid: "extends w0 w \<Longrightarrow> valid g w0 \<Longrightarrow> valid g w"
  by (auto simp: extends_def valid_def nth_append)

lemma extends_row: "extends w0 w \<Longrightarrow> valid g w0 \<Longrightarrow> y < 30 \<Longrightarrow> row_of w g y = row_of w0 g y"
  by (simp add: row_of_def extends_nth valid_def)

lemma extends_tile:
  "extends w0 w \<Longrightarrow> valid g w0 \<Longrightarrow> y < 30 \<Longrightarrow> tile_at w g y x = tile_at w0 g y x"
  by (simp add: tile_at_def extends_nth valid_def)

lemma extends_valid_pop: "extends w0 w \<Longrightarrow> valid_pop p w0 \<Longrightarrow> valid_pop p w"
  by (auto simp: valid_pop_def intro: extends_valid)

lemma extends_marked: "extends w0 w \<Longrightarrow> valid g w0 \<Longrightarrow> marked c w g = marked c w0 g"
  by (simp add: marked_def extends_tile)

lemma extends_score:
  assumes "extends w0 w" "valid g w0"
  shows "score w g = score w0 g"
proof -
  have t: "tile_at w g y x = tile_at w0 g y x" if "y < 30" for y x
    using extends_tile [OF assms that] .
  have "central_term w g = central_term w0 g"
    unfolding central_term_def by (intro sum.cong refl) (simp add: t)
  moreover have "mountain_term w g = mountain_term w0 g"
    unfolding mountain_term_def by (intro sum.cong refl) (simp add: t)
  moreover have "river_term w g = river_term w0 g"
    unfolding river_term_def by (intro sum.cong refl) (simp add: t cong: conj_cong)
  moreover have "rock_cells w g = rock_cells w0 g"
    unfolding rock_cells_def by (rule arg_cong [where f = card]) (auto simp: t)
  ultimately show ?thesis by (simp add: score_def rock_term_def)
qed

subsection \<open>Sorting by score\<close>

lemma map_insort_key: "map f (insort_key f x ys) = insort (f x) (map f ys)"
  by (induction ys) simp_all

lemma map_sort_key: "map f (sort_key f xs) = sort (map f xs)"
  by (induction xs) (simp_all add: map_insort_key)

lemma sort_uminus: "map uminus (sort (map uminus xs)) = rev (sort (xs :: int list))"
proof -
  let ?ys = "rev (map uminus (sort (map uminus xs)))"
  have "mset ?ys = mset xs"
    by (simp add: multiset.map_comp comp_def)
  moreover have "sorted ?ys"
    by (simp add: sorted_rev_iff_nth_mono sorted_wrt_map rev_map [symmetric])
       (metis sorted_sort sorted_wrt_map sorted_iff_nth_mono length_sort length_map nth_map
              neg_le_iff_le)
  ultimately have "sort xs = ?ys" by (rule properties_for_sort)
  then show ?thesis by simp
qed

lemma sorted_by_score_scores:
  "map f (sorted_by_score (map f pop) pop) = rev (sort (map f pop))"
proof -
  let ?ps = "sort_key (\<lambda>p. - fst p) (zip (map f pop) pop)"
  have "\<forall>p\<in>set ?ps. f (snd p) = fst p" by (auto simp: zip_map1 in_set_zip)
  then have "map f (map snd ?ps) = map fst ?ps" by (simp add: map_eq_conv)
  also have "\<dots> = map uminus (map (\<lambda>p. - fst p) ?ps)" by (simp add: comp_def)
  also have "\<dots> = map uminus (sort (map (\<lambda>p. - fst p) (zip (map f pop) pop)))"
    by (simp only: map_sort_key)
  also have "map (\<lambda>p. - fst p) (zip (map f pop) pop) = map uminus (map f pop)"
    by (simp add: zip_map1 comp_def map_fst_zip [symmetric] del: map_fst_zip)
       (induction pop, simp_all)
  also have "map uminus (sort (map uminus (map f pop))) = rev (sort (map f pop))"
    by (rule sort_uminus)
  finally show ?thesis by (simp add: sorted_by_score_def)
qed

lemma set_sorted_by_score:
  assumes "length scores = length pop"
  shows "set (sorted_by_score scores pop) = set pop"
proof -
  have "set (sorted_by_score scores pop) = snd ` set (zip scores pop)"
    by (simp add: sorted_by_score_def)
  also have "\<dots> = set (map snd (zip scores pop))" by simp
  also have "\<dots> = set pop" by (simp only: map_snd_zip [OF assms])
  finally show ?thesis .
qed

lemma length_sorted_by_score:
  "length scores = length pop \<Longrightarrow> length (sorted_by_score scores pop) = length pop"
  by (simp add: sorted_by_score_def)

lemma quiet_circle: "known E (quiet c) \<Longrightarrow> known E (circle (seed_of c) (seed_of c))"
  by (auto simp: known_def quiet_def)

lemma quiet_tile:
  "quiet c \<Longrightarrow> tile_of_int (int c mod 4) = MOUNTAIN \<or> tile_of_int (int c mod 4) = RIVER"
proof -
  assume "quiet c"
  then have "c mod 4 = 1 \<or> c mod 4 = 2" by (simp add: quiet_def)
  then have "int c mod 4 = 1 \<or> int c mod 4 = 2"
    by (metis of_nat_mod of_nat_numeral of_nat_1)
  then show ?thesis by (auto simp: tile_of_int_def)
qed

lemma shaped_2_2: "shaped 2 2 t = t"
  by (simp add: shaped_def band_facts border_def circle_def is_in_central_circle_def)

lemma choice_Nil: "xs \<noteq> [] \<Longrightarrow> tape w = [] \<Longrightarrow> choice xs w = Inl OutOfDraws"
  by (simp add: choice_def bnd_def draw_Nil)

lemma choice_Cons:
  "xs \<noteq> [] \<Longrightarrow> tape w = r # t \<Longrightarrow> choice xs w = Inr (xs ! (r mod length xs), w\<lparr>tape := t\<rparr>)"
  by (simp add: choice_def bnd_def draw_Cons ret_def)

lemma outcome_choice:
  assumes "xs \<noteq> []" "fed E c (Suc k) (tape w)"
  shows "outcome E (\<lambda>x w'. x \<in> set xs \<and> heap w' = heap w \<and> fed E c k (tape w')) (choice xs w)"
proof (cases "tape w")
  case Nil
  then have "choice xs w = Inl OutOfDraws" using assms(1) by (rule_tac choice_Nil)
  moreover have "E OutOfDraws" using assms(2) Nil fed_NilD by metis
  ultimately show ?thesis by simp
next
  case (Cons r t)
  have "fed E c k t" using assms(2) Cons fed_ConsD by metis
  moreover have "xs ! (r mod length xs) \<in> set xs" using assms(1) by simp
  ultimately show ?thesis using assms(1) Cons by (simp add: choice_Cons)
qed

lemma crossover_fresh:
  assumes "valid a w" "valid b w"
  shows "fresh_map w (w\<lparr>heap := heap w @ crossover_rows w a b 30\<rparr>)
           [length (heap w)..<length (heap w) + 30]"
proof -
  have "length (crossover_rows w a b 30) = 30" by (simp add: crossover_rows_def)
  moreover have "\<forall>r\<in>set (crossover_rows w a b 30). length r = 30"
    using assms by (auto simp: crossover_rows_def valid_def)
  ultimately show ?thesis unfolding fresh_map_def by auto
qed

lemma crossover_tile:
  assumes "valid a w" "valid b w" "y < 15"
  shows "tile_at (w\<lparr>heap := heap w @ crossover_rows w a b 30\<rparr>)
           [length (heap w)..<length (heap w) + 30] y x = tile_at w a y x"
  using assms by (simp add: tile_at_def crossover_rows_def nth_append)

lemma fresh_map_heap0: "heap w0' = heap w0 \<Longrightarrow> fresh_map w0' w g = fresh_map w0 w g"
  by (simp add: fresh_map_def)

lemma hoare_make_child:
  "hoare E (\<lambda>w. w = w0 \<and> valid_pop sp w0 \<and> sp \<noteq> [] \<and> fed E c (1906 + k) (tape w0)
               \<and> known E (quiet c) \<and> known E (\<forall>g\<in>set sp. marked c w0 g))
     (make_child sp)
     (\<lambda>child w. fresh_map w0 w child \<and> fed E c k (tape w) \<and> known E (marked c w child))"
  unfolding hoare_outcome make_child_def
proof (intro allI impI)
  fix w assume pre: "w = w0 \<and> valid_pop sp w0 \<and> sp \<noteq> [] \<and> fed E c (1906 + k) (tape w0)
               \<and> known E (quiet c) \<and> known E (\<forall>g\<in>set sp. marked c w0 g)"
  let ?Q = "\<lambda>child w. fresh_map w0 w child \<and> fed E c k (tape w) \<and> known E (marked c w child)"
  let ?top = "take 15 sp"
  have top: "?top \<noteq> []" "set ?top \<subseteq> set sp" using pre by (auto dest: in_set_takeD)
  have f0: "fed E c (Suc (Suc (1904 + k))) (tape w0)" using pre by simp
  have "outcome E (\<lambda>parent1 w1. outcome E (\<lambda>parent2 w2. outcome E ?Q
           (bnd (crossover parent1 parent2) (\<lambda>child. mutate child) w2)) (choice ?top w1))
          (choice ?top w0)"
  proof (rule outcome_mono [OF outcome_choice [OF top(1) f0]])
    fix p1 and w1 :: world
    assume a1: "p1 \<in> set ?top \<and> heap w1 = heap w0 \<and> fed E c (Suc (1904 + k)) (tape w1)"
    show "outcome E (\<lambda>parent2 w2. outcome E ?Q
           (bnd (crossover p1 parent2) (\<lambda>child. mutate child) w2)) (choice ?top w1)"
    proof (rule outcome_mono [OF outcome_choice [OF top(1), of E c "1904 + k" w1]])
      show "fed E c (Suc (1904 + k)) (tape w1)" using a1 by simp
    next
      fix p2 and w2 :: world
      assume a2: "p2 \<in> set ?top \<and> heap w2 = heap w1 \<and> fed E c (1904 + k) (tape w2)"
      have h2: "heap w2 = heap w0" using a1 a2 by simp
      have vp: "valid p1 w0" "valid p2 w0"
        using a1 a2 top(2) pre by (auto simp: valid_pop_def)
      then have v2: "valid p1 w2" "valid p2 w2" by (simp_all add: valid_heap [OF h2])
      let ?child = "[length (heap w2)..<length (heap w2) + 30]"
      let ?w3 = "w2\<lparr>heap := heap w2 @ crossover_rows w2 p1 p2 30\<rparr>"
      have cr: "crossover p1 p2 w2 = Inr (?child, ?w3)" by (rule crossover_eq [OF v2])
      have fm3: "fresh_map w0 ?w3 ?child"
        using crossover_fresh [OF v2] by (simp add: fresh_map_heap0 [OF h2])
      have v3: "valid ?child ?w3" by (rule valid_crossover [OF v2])
      have t3: "tile_at ?w3 ?child 2 2 = tile_at w0 p1 2 2"
        using crossover_tile [OF v2, of 2 2] by (simp add: tile_at_heap [OF h2])
      have "outcome E ?Q (mutate ?child ?w3)"
      proof (rule outcome_mono [OF outcome_hoare [OF hoare_mutate [of E ?w3 ?child c k]]])
        show "?w3 = ?w3 \<and> valid ?child ?w3 \<and> fed E c (1904 + k) (tape ?w3)
                \<and> known E (circle (seed_of c) (seed_of c))"
          using v3 a2 pre quiet_circle by simp
      next
        fix r and w4 :: world
        assume m: "r = ?child \<and> valid ?child w4 \<and> writes_only ?child ?w3 w4
           \<and> constrained w4 ?child \<and> rock_cells w4 ?child \<le> 40 \<and> fed E c k (tape w4)
           \<and> known E (tile_at w4 ?child (target_of c) (target_of c) \<noteq> PLAINS)
           \<and> known E (\<not> c mod 100 < 3 \<longrightarrow> (\<forall>y<30. \<forall>x<30.
              tile_at w4 ?child y x = shaped y x (cleared (tile_at ?w3 ?child y x)) \<or>
              (shaped y x (cleared (tile_at ?w3 ?child y x)) = PLAINS
                 \<and> tile_at w4 ?child y x = ROCK)))"
        have fm4: "fresh_map w0 w4 ?child" using fresh_map_writes [OF fm3] m by blast
        have "known E (marked c w4 ?child)"
        proof (cases "E OutOfDraws")
          case True then show ?thesis by (simp add: known_def)
        next
          case False
          then have q: "quiet c" and mk: "marked c w0 p1"
            using pre a1 top(2) by (auto simp: known_def)
          have t: "tile_at w0 p1 2 2 = tile_of_int (int c mod 4)" using mk by (simp add: marked_def)
          have nr: "tile_at w0 p1 2 2 \<noteq> ROCK" "tile_at w0 p1 2 2 \<noteq> PLAINS"
            using quiet_tile [OF q] t by auto
          have "\<forall>y<30. \<forall>x<30.
              tile_at w4 ?child y x = shaped y x (cleared (tile_at ?w3 ?child y x)) \<or>
              (shaped y x (cleared (tile_at ?w3 ?child y x)) = PLAINS
                 \<and> tile_at w4 ?child y x = ROCK)"
            using m q False by (simp add: known_def quiet_def)
          then have "tile_at w4 ?child 2 2 = shaped 2 2 (cleared (tile_at ?w3 ?child 2 2)) \<or>
              (shaped 2 2 (cleared (tile_at ?w3 ?child 2 2)) = PLAINS
                 \<and> tile_at w4 ?child 2 2 = ROCK)"
            by simp
          then have "tile_at w4 ?child 2 2 = tile_at w0 p1 2 2"
            using nr unfolding t3 shaped_2_2 by (simp add: cleared_def)
          then show ?thesis using t by (simp add: marked_def known_def)
        qed
        then show "?Q r w4" using fm4 m by simp
      qed
      then show "outcome E ?Q (bnd (crossover p1 p2) (\<lambda>child. mutate child) w2)"
        by (simp add: bnd_def cr)
    qed
  qed
  then show "outcome E ?Q
     (bnd (choice (take 15 sp)) (\<lambda>parent1.
     bnd (choice (take 15 sp)) (\<lambda>parent2.
     bnd (crossover parent1 parent2) (\<lambda>child.
     mutate child))) w)"
    using pre by (simp only: outcome_bnd)
qed

lemma fill_population_spec:
  assumes "valid_pop sp w0" "sp \<noteq> []" "valid_pop new w0"
    and "fed E c (1906 * (n - length new) + k) (tape w0)"
    and "known E (quiet c)" and "known E (\<forall>g\<in>set sp \<union> set new. marked c w0 g)"
  shows "outcome E (\<lambda>pop w. extends w0 w \<and> valid_pop pop w \<and> take (length new) pop = new
            \<and> length pop = max n (length new) \<and> fed E c k (tape w)
            \<and> known E (\<forall>g\<in>set pop. marked c w g))
           (fill_population n sp new w0)"
  using assms
proof (induction "n - length new" arbitrary: new w0)
  case 0
  then have "\<not> length new < n" by simp
  then show ?case using 0
    by (auto simp: fill_population.simps [of n sp new] ret_def known_def max_def)
next
  case (Suc d)
  then have lt: "length new < n" by simp
  have b: "1906 * (n - length new) + k = 1906 + (1906 * (n - Suc (length new)) + k)"
    using lt by simp
  let ?kk = "1906 * (n - Suc (length new)) + k"
  let ?Q = "\<lambda>pop w. extends w0 w \<and> valid_pop pop w \<and> take (length new) pop = new
            \<and> length pop = max n (length new) \<and> fed E c k (tape w)
            \<and> known E (\<forall>g\<in>set pop. marked c w g)"
  have "outcome E (\<lambda>child w1. outcome E ?Q (fill_population n sp (new @ [child]) w1))
          (make_child sp w0)"
  proof (rule outcome_mono [OF outcome_hoare [OF hoare_make_child [of E w0 sp c ?kk]]])
    show "w0 = w0 \<and> valid_pop sp w0 \<and> sp \<noteq> [] \<and> fed E c (1906 + ?kk) (tape w0)
               \<and> known E (quiet c) \<and> known E (\<forall>g\<in>set sp. marked c w0 g)"
      using Suc.prems b by (auto simp: known_def)
  next
    fix child and w1 :: world
    assume a: "fresh_map w0 w1 child \<and> fed E c ?kk (tape w1) \<and> known E (marked c w1 child)"
    have ex: "extends w0 w1" using a fresh_map_extends by blast
    have vc: "valid child w1" using a fresh_map_valid by blast
    have v1: "valid_pop sp w1" "valid_pop (new @ [child]) w1"
      using extends_valid_pop [OF ex] Suc.prems vc by (auto simp: valid_pop_def)
    have mk: "known E (\<forall>g\<in>set sp \<union> set (new @ [child]). marked c w1 g)"
    proof (cases "E OutOfDraws")
      case True then show ?thesis by (simp add: known_def)
    next
      case False
      then have "\<forall>g\<in>set sp \<union> set new. marked c w0 g" "marked c w1 child"
        using Suc.prems a by (simp_all add: known_def)
      moreover have "marked c w1 g = marked c w0 g" if "g \<in> set sp \<union> set new" for g
        using that Suc.prems(1,3) extends_marked [OF ex] by (auto simp: valid_pop_def)
      ultimately show ?thesis by (auto simp: known_def)
    qed
    have d: "d = n - length (new @ [child])" using Suc.hyps(2) by simp
    have f1: "fed E c (1906 * (n - length (new @ [child])) + k) (tape w1)" using a by simp
    show "outcome E ?Q (fill_population n sp (new @ [child]) w1)"
    proof (rule outcome_mono [OF Suc.hyps(1) [OF d v1(1) Suc.prems(2) v1(2) f1 Suc.prems(5) mk]])
      fix pop and w :: world
      assume r: "extends w1 w \<and> valid_pop pop w
            \<and> take (length (new @ [child])) pop = new @ [child]
            \<and> length pop = max n (length (new @ [child])) \<and> fed E c k (tape w)
            \<and> known E (\<forall>g\<in>set pop. marked c w g)"
      have "take (length new) pop = take (length new) (take (length (new @ [child])) pop)"
        by (simp add: min_def)
      also have "\<dots> = new" using r by simp
      finally have "take (length new) pop = new" .
      moreover have "length pop = max n (length new)" using r lt by simp
      ultimately show "?Q pop w" using r ex extends_trans by blast
    qed
  qed
  then show ?case using lt
    by (simp add: fill_population.simps [of n sp new] outcome_bnd)
qed

lemma fitness_scores_loop:
  assumes "valid_pop pop w"
  shows "for_loop pop (\<lambda>ind scores.
       bnd (calculate_fitness ind) (\<lambda>s. ret (scores @ [s]))) acc w
         = Inr (acc @ map (score w) pop, w)"
  using assms
proof (induction pop arbitrary: acc)
  case Nil
  show ?case by (simp add: ret_def)
next
  case (Cons g pop)
  then have "valid g w" "valid_pop pop w" by (simp_all add: valid_pop_def)
  then show ?case
    using Cons.IH by (simp add: bnd_def calculate_fitness_eq ret_def)
qed

lemma fitness_scores_eq:
  "valid_pop pop w \<Longrightarrow> fitness_scores pop w = Inr (map (score w) pop, w)"
  unfolding fitness_scores_def using fitness_scores_loop [of pop w "[]"] by simp

lemma generation_spec:
  assumes vp: "valid_pop pop w0" and ne: "pop \<noteq> []"
    and f: "fed E c (1906 * n + k) (tape w0)"
    and q: "known E (quiet c)" and mk: "known E (\<forall>g\<in>set pop. marked c w0 g)"
  shows "outcome E (\<lambda>pop' w. extends w0 w \<and> valid_pop pop' w \<and> pop' \<noteq> []
            \<and> take (min 5 (length pop)) pop'
                 = take 5 (sorted_by_score (map (score w0) pop) pop)
            \<and> length pop' = max n (min 5 (length pop)) \<and> fed E c k (tape w)
            \<and> known E (\<forall>g\<in>set pop'. marked c w g))
           (generation n pop w0)"
proof -
  let ?scores = "map (score w0) pop"
  let ?sp = "sorted_by_score ?scores pop"
  let ?new = "take 5 ?sp"
  have set_sp: "set ?sp = set pop" by (rule set_sorted_by_score) simp
  have len_sp: "length ?sp = length pop" by (rule length_sorted_by_score) simp
  have sp_ne: "?sp \<noteq> []" using ne len_sp by auto
  have run: "generation n pop w0 = fill_population n ?sp ?new w0"
    using ne by (simp add: generation_def bnd_def fitness_scores_eq [OF vp] py_max_def
          ret_def Let_def)
  have v_sp: "valid_pop ?sp w0" using vp set_sp by (simp add: valid_pop_def)
  have v_new: "valid_pop ?new w0"
    using v_sp by (auto simp: valid_pop_def dest: in_set_takeD)
  have lnew: "length ?new = min 5 (length pop)" using len_sp by (simp add: min.commute)
  have f': "fed E c (1906 * (n - length ?new) + k) (tape w0)"
    by (rule fed_mono [OF f]) simp
  have mk': "known E (\<forall>g\<in>set ?sp \<union> set ?new. marked c w0 g)"
    using mk set_sp by (auto simp: known_def dest: in_set_takeD)
  have "outcome E (\<lambda>pop' w. extends w0 w \<and> valid_pop pop' w \<and> pop' \<noteq> []
            \<and> take (min 5 (length pop)) pop' = ?new
            \<and> length pop' = max n (min 5 (length pop)) \<and> fed E c k (tape w)
            \<and> known E (\<forall>g\<in>set pop'. marked c w g))
           (fill_population n ?sp ?new w0)"
  proof (rule outcome_mono [OF fill_population_spec [OF v_sp sp_ne v_new f' q mk']])
    fix pop' and w :: world
    assume r: "extends w0 w \<and> valid_pop pop' w \<and> take (length ?new) pop' = ?new
            \<and> length pop' = max n (length ?new) \<and> fed E c k (tape w)
            \<and> known E (\<forall>g\<in>set pop'. marked c w g)"
    have "0 < length pop'" using r lnew ne by (cases pop) auto
    then have "pop' \<noteq> []" by auto
    then show "extends w0 w \<and> valid_pop pop' w \<and> pop' \<noteq> []
            \<and> take (min 5 (length pop)) pop' = ?new
            \<and> length pop' = max n (min 5 (length pop)) \<and> fed E c k (tape w)
            \<and> known E (\<forall>g\<in>set pop'. marked c w g)"
      using r lnew by simp
  qed
  then show ?thesis by (simp only: run)
qed

lemma outcome_never: "outcome never Q r \<Longrightarrow> \<exists>x w. r = Inr (x, w) \<and> Q x w"
  by (cases r) (auto simp: never_def)

lemma outcome_starved:
  "outcome starved Q r \<Longrightarrow> r \<noteq> Inl IndexError \<and> r \<noteq> Inl ValueError
      \<and> (\<forall>x w. r = Inr (x, w) \<longrightarrow> Q x w)"
  by (cases r) (auto simp: starved_def)

lemma quiet_5_6: "quiet 5" "quiet 6"
  by (simp_all add: quiet_def circle_5)

lemma generated_2_2: "generated c 2 2 = tile_of_int (int c mod 4)"
  by (simp add: generated_def border_def)

lemma new_individual_marked:
  assumes "known E (quiet c)"
    and "known E (\<forall>y<30. \<forall>x<30.
              tile_at w g y x = shaped y x (generated c y x) \<or>
              (shaped y x (generated c y x) = PLAINS \<and> tile_at w g y x = ROCK))"
  shows "known E (marked c w g)"
proof (cases "E OutOfDraws")
  case True then show ?thesis by (simp add: known_def)
next
  case False
  then have q: "quiet c" and t: "\<forall>y<30. \<forall>x<30.
              tile_at w g y x = shaped y x (generated c y x) \<or>
              (shaped y x (generated c y x) = PLAINS \<and> tile_at w g y x = ROCK)"
    using assms by (simp_all add: known_def)
  have "tile_at w g 2 2 = shaped 2 2 (generated c 2 2) \<or>
              (shaped 2 2 (generated c 2 2) = PLAINS \<and> tile_at w g 2 2 = ROCK)"
    using t by simp
  then show ?thesis
    using quiet_tile [OF q] by (auto simp: shaped_2_2 generated_2_2 marked_def known_def)
qed

lemma init_population_spec:
  assumes f: "fed E c (1004 * n + k) (tape w0)" and q: "known E (quiet c)"
  shows "outcome E (\<lambda>pop w. extends w0 w \<and> valid_pop pop w \<and> length pop = n
            \<and> fed E c k (tape w) \<and> known E (\<forall>g\<in>set pop. marked c w g))
           (init_population n w0)"
proof -
  define I where "I i pop w \<longleftrightarrow> extends w0 w \<and> valid_pop pop w \<and> length pop = i
            \<and> fed E c (1004 * (n - i) + k) (tape w)
            \<and> known E (\<forall>g\<in>set pop. marked c w g)" for i pop w
  have step: "hoare E (I i pop)
      (bnd new_individual (\<lambda>individual. ret (pop @ [individual]))) (I (Suc i))"
    if "i < n" for i pop
    unfolding hoare_outcome
  proof (intro allI impI)
    fix w assume I: "I i pop w"
    define kk where "kk = 1004 * (n - Suc i) + k"
    have b: "1004 * (n - i) + k = 1004 + kk" using that by (simp add: kk_def)
    have "outcome E (\<lambda>g w'. I (Suc i) (pop @ [g]) w') (new_individual w)"
    proof (rule outcome_mono [OF outcome_hoare [OF hoare_new_individual [of E w c kk]]])
      show "w = w \<and> fed E c (1004 + kk) (tape w) \<and> known E (circle (seed_of c) (seed_of c))"
        using I b q quiet_circle by (simp add: I_def)
    next
      fix g and w' :: world
      assume a: "fresh_map w w' g \<and> constrained w' g \<and> fed E c kk (tape w')
        \<and> known E (\<forall>y<30. \<forall>x<30.
              tile_at w' g y x = shaped y x (generated c y x) \<or>
              (shaped y x (generated c y x) = PLAINS \<and> tile_at w' g y x = ROCK))
        \<and> known E (tile_at w' g (target_of c) (target_of c) \<noteq> PLAINS)"
      have ex: "extends w w'" using a fresh_map_extends by blast
      have vg: "valid g w'" using a fresh_map_valid by blast
      have mg: "known E (marked c w' g)" using new_individual_marked [OF q] a by blast
      have vp: "valid_pop pop w" using I by (simp add: I_def)
      have "known E (\<forall>h\<in>set (pop @ [g]). marked c w' h)"
      proof (cases "E OutOfDraws")
        case True then show ?thesis by (simp add: known_def)
      next
        case False
        then have "\<forall>h\<in>set pop. marked c w h" "marked c w' g"
          using I mg by (simp_all add: I_def known_def)
        moreover have "marked c w' h = marked c w h" if "h \<in> set pop" for h
          using that vp extends_marked [OF ex] by (auto simp: valid_pop_def)
        ultimately show ?thesis by (auto simp: known_def)
      qed
      moreover have "valid_pop (pop @ [g]) w'"
        using extends_valid_pop [OF ex vp] vg by (auto simp: valid_pop_def)
      moreover have "extends w0 w'" using I ex by (auto simp: I_def intro: extends_trans)
      ultimately show "I (Suc i) (pop @ [g]) w'"
        using I a by (simp add: I_def kk_def)
    qed
    then show "outcome E (I (Suc i))
        (bnd new_individual (\<lambda>individual. ret (pop @ [individual])) w)"
      by (simp add: outcome_bnd ret_def)
  qed
  have "hoare E (I 0 []) (init_population n) (I n)"
    unfolding init_population_def
    by (rule hoare_for_upt) (rule step)
  then have "outcome E (I n) (init_population n w0)"
    by (rule outcome_hoare) (use f in \<open>simp add: I_def valid_pop_def known_def\<close>)
  then show ?thesis by (rule outcome_mono) (simp add: I_def)
qed

lemma best_index_from_less:
  "best < n \<Longrightarrow> \<forall>i\<in>set rest. i < n \<Longrightarrow> best_index_from scores best rest < n"
  by (induction rest arbitrary: best) simp_all

lemma run_spec:
  assumes n: "1 \<le> n" and f: "fed E c (1004 * n + 1906 * n * gens + k) (tape w0)"
    and q: "known E (quiet c)"
  shows "outcome E (\<lambda>best w. extends w0 w \<and> valid best w \<and> fed E c k (tape w)
            \<and> known E (marked c w best))
           (run n gens w0)"
proof -
  let ?Q = "\<lambda>best w. extends w0 w \<and> valid best w \<and> fed E c k (tape w)
            \<and> known E (marked c w best)"
  define I where "I i pop w \<longleftrightarrow> extends w0 w \<and> valid_pop pop w \<and> pop \<noteq> []
            \<and> fed E c (1906 * n * (gens - i) + k) (tape w)
            \<and> known E (\<forall>g\<in>set pop. marked c w g)" for i pop w
  have step: "hoare E (I i pop) (generation n pop) (I (Suc i))" if "i < gens" for i pop
    unfolding hoare_outcome
  proof (intro allI impI)
    fix w assume I: "I i pop w"
    define kk where "kk = 1906 * n * (gens - Suc i) + k"
    have "gens - i = Suc (gens - Suc i)" using that by simp
    then have "1906 * n * (gens - i) = 1906 * n * Suc (gens - Suc i)" by (simp only:)
    then have b: "1906 * n * (gens - i) + k = 1906 * n + kk" by (simp add: kk_def)
    have pre: "valid_pop pop w" "pop \<noteq> []" "fed E c (1906 * n + kk) (tape w)"
      "known E (\<forall>g\<in>set pop. marked c w g)"
      using I b by (simp_all add: I_def)
    show "outcome E (I (Suc i)) (generation n pop w)"
      by (rule outcome_mono [OF generation_spec [OF pre(1-3) q pre(4)]])
         (use I in \<open>auto simp: I_def kk_def intro: extends_trans\<close>)
  qed
  have loop: "hoare E (I 0 pop)
      (for_loop [0..<gens] (\<lambda>generation_no population. generation n population) pop) (I gens)"
    for pop
    by (rule hoare_for_upt) (rule step)
  have final: "outcome E ?Q
      (bnd (fitness_scores pop) (\<lambda>final_fitness_scores.
       bnd (best_index final_fitness_scores) (\<lambda>i. ret (pop ! i))) w)"
    if "I gens pop w" for pop w
  proof -
    have vp: "valid_pop pop w" and ne: "pop \<noteq> []" using that by (simp_all add: I_def)
    let ?i = "best_index_from (map (score w) pop) 0 [1..<length pop]"
    have "?i < length pop" using ne by (intro best_index_from_less) auto
    then have "pop ! ?i \<in> set pop" by simp
    then have "?Q (pop ! ?i) w" using that by (auto simp: I_def valid_pop_def known_def)
    then show ?thesis
      using ne by (simp add: bnd_def fitness_scores_eq [OF vp] best_index_def ret_def)
  qed
  have "outcome E (\<lambda>pop w1. outcome E ?Q
     (bnd (for_loop [0..<gens] (\<lambda>generation_no population. generation n population) pop)
        (\<lambda>population.
     bnd (fitness_scores population) (\<lambda>final_fitness_scores.
     bnd (best_index final_fitness_scores) (\<lambda>i.
     ret (population ! i)))) w1)) (init_population n w0)"
  proof (rule outcome_mono [OF init_population_spec [of E c n "1906 * n * gens + k" w0, OF _ q]])
    show "fed E c (1004 * n + (1906 * n * gens + k)) (tape w0)" using f by (simp add: add.assoc)
  next
    fix pop and w1 :: world
    assume a: "extends w0 w1 \<and> valid_pop pop w1 \<and> length pop = n
            \<and> fed E c (1906 * n * gens + k) (tape w1)
            \<and> known E (\<forall>g\<in>set pop. marked c w1 g)"
    then have "pop \<noteq> []" using n by auto
    then have I0: "I 0 pop w1" using a by (simp add: I_def)
    have "outcome E (\<lambda>pop' w2. outcome E ?Q
       (bnd (fitness_scores pop') (\<lambda>final_fitness_scores.
        bnd (best_index final_fitness_scores) (\<lambda>i. ret (pop' ! i))) w2))
       (for_loop [0..<gens] (\<lambda>generation_no population. generation n population) pop w1)"
      by (rule outcome_mono [OF outcome_hoare [OF loop I0]]) (rule final)
    then show "outcome E ?Q
     (bnd (for_loop [0..<gens] (\<lambda>generation_no population. generation n population) pop)
        (\<lambda>population.
     bnd (fitness_scores population) (\<lambda>final_fitness_scores.
     bnd (best_index final_fitness_scores) (\<lambda>i.
     ret (population ! i)))) w1)"
      by (simp only: outcome_bnd)
  qed
  then show ?thesis by (simp only: run_def outcome_bnd)
qed

lemma fed_steady: "k \<le> 20000000 \<Longrightarrow> fed E c k (tape (steady c))"
  by (auto simp: fed_def steady_def)

lemma run_empty_population: "run 0 gens w = Inl ValueError"
proof (cases gens)
  case 0
  then show ?thesis
    by (simp add: run_def init_population_def bnd_def ret_def fitness_scores_def
          best_index_def raise_def)
next
  case (Suc g)
  have "generation 0 [] w = Inl ValueError"
    by (simp add: generation_def bnd_def fitness_scores_def ret_def py_max_def raise_def)
  then have "for_loop [0..<Suc g] (\<lambda>generation_no population. generation 0 population) [] w
               = Inl ValueError"
    by (simp add: upt_rec [of 0] bnd_def)
  then show ?thesis
    using Suc by (simp add: run_def init_population_def bnd_def ret_def)
qed

lemma run_steady:
  assumes "1 \<le> n" "1004 * n + 1906 * n * gens \<le> 20000000" "quiet c"
  shows "\<exists>best w. run n gens (steady c) = Inr (best, w) \<and> valid best w
            \<and> tile_at w best 2 2 = tile_of_int (int c mod 4)"
proof -
  have "fed never c (1004 * n + 1906 * n * gens + 0) (tape (steady c))"
    using assms(2) by (simp add: fed_steady)
  from outcome_never [OF run_spec [OF assms(1) this]] assms(3)
  show ?thesis by (auto simp: marked_def)
qed

lemma prefix_runD:
  "prefix_run m w \<Longrightarrow> m w = Inr (x, w') \<Longrightarrow> m (more_draws u w) = Inr (x, more_draws u w')"
  by (simp add: prefix_run_def)

lemma prefix_ret [prefix_intros]: "prefix_run (ret x) w"
  by (simp add: prefix_run_def ret_def)

lemma prefix_raise [prefix_intros]: "prefix_run (raise e) w"
  by (simp add: prefix_run_def raise_def)

lemma prefix_bnd [prefix_intros]:
  assumes "prefix_run m w" and "\<And>x w1. prefix_run (f x) w1"
  shows "prefix_run (bnd m f) w"
  unfolding prefix_run_def
proof (intro allI impI)
  fix y w' u
  assume r: "bnd m f w = Inr (y, w')"
  then obtain x w1 where m: "m w = Inr (x, w1)" and f: "f x w1 = Inr (y, w')"
    by (auto simp: bnd_def split: sum.splits)
  show "bnd m f (more_draws u w) = Inr (y, more_draws u w')"
    using prefix_runD [OF assms(1) m, of u] prefix_runD [OF assms(2) f, of u]
    by (simp add: bnd_def)
qed

lemma prefix_seq [prefix_intros]:
  "prefix_run m w \<Longrightarrow> (\<And>w1. prefix_run n w1) \<Longrightarrow> prefix_run (seq m n) w"
  unfolding seq_def by (rule prefix_bnd)

lemma prefix_if [prefix_intros]:
  "(b \<Longrightarrow> prefix_run m w) \<Longrightarrow> (\<not> b \<Longrightarrow> prefix_run n w)
     \<Longrightarrow> prefix_run (if b then m else n) w"
  by simp

lemma prefix_case_prod [prefix_intros]:
  "(\<And>a b. prefix_run (f a b) w) \<Longrightarrow> prefix_run (case p of (a, b) \<Rightarrow> f a b) w"
  by (cases p) simp

lemma prefix_for_loop [prefix_intros]:
  "(\<And>x acc w. prefix_run (body x acc) w) \<Longrightarrow> prefix_run (for_loop xs body acc) w"
proof (induction xs arbitrary: acc w)
  case Nil
  show ?case by (simp add: prefix_ret)
next
  case (Cons x xs)
  show ?case
    unfolding for_loop.simps
    by (rule prefix_bnd) (rule Cons.prems, rule Cons.IH, rule Cons.prems)
qed

lemma prefix_for_each [prefix_intros]:
  "(\<And>x w. prefix_run (body x) w) \<Longrightarrow> prefix_run (for_each xs body) w"
  unfolding for_each_def by (rule prefix_for_loop)

lemma prefix_draw [prefix_intros]: "prefix_run draw w"
  by (auto simp: prefix_run_def draw_def more_draws_def split: list.splits)

lemma prefix_read_row [prefix_intros]: "prefix_run (read_row a) w"
  by (auto simp: prefix_run_def read_row_def more_draws_def)

lemma prefix_write_row [prefix_intros]: "prefix_run (write_row a r) w"
  by (auto simp: prefix_run_def write_row_def more_draws_def)

lemma prefix_alloc [prefix_intros]: "prefix_run (alloc r) w"
  by (auto simp: prefix_run_def alloc_def more_draws_def)

lemma prefix_py_index [prefix_intros]: "prefix_run (py_index n i) w"
  unfolding py_index_def by (intro prefix_intros)

lemma prefix_cell [prefix_intros]: "prefix_run (cell g y x) w"
  unfolding cell_def by (intro prefix_intros)

lemma prefix_put [prefix_intros]: "prefix_run (put g y x v) w"
  unfolding put_def by (intro prefix_intros)

lemma prefix_randint [prefix_intros]: "prefix_run (randint a b) w"
  unfolding randint_def by (intro prefix_intros)

lemma prefix_random_below_rate [prefix_intros]: "prefix_run random_below_rate w"
  unfolding random_below_rate_def by (intro prefix_intros)

lemma prefix_choice [prefix_intros]: "prefix_run (choice xs) w"
  unfolding choice_def by (intro prefix_intros)

lemma prefix_generate_random_map [prefix_intros]: "prefix_run generate_random_map w"
  unfolding generate_random_map_def by (intro prefix_intros)

lemma prefix_enforce_constraints [prefix_intros]: "prefix_run (enforce_constraints g) w"
  unfolding enforce_constraints_def by (intro prefix_intros)

lemma prefix_place_river [prefix_intros]: "prefix_run (place_river g) w"
  unfolding place_river_def Let_def by (intro prefix_intros)

lemma find_seed_unfold:
  "find_seed g =
     bnd (randint 5 (int MAP_WIDTH - 5)) (\<lambda>cx.
     bnd (randint 5 (int MAP_HEIGHT - 5)) (\<lambda>cy.
     bnd (cell g cy cx) (\<lambda>v.
     if v \<noteq> MOUNTAIN then ret (cx, cy) else find_seed g)))"
proof
  fix w
  have "(\<lambda>v w'. if v \<noteq> MOUNTAIN then ret (cx, cy) w' else find_seed g w')
          = (\<lambda>v. if v \<noteq> MOUNTAIN then ret (cx, cy) else find_seed g)" for cx cy :: int
    by (intro ext) simp
  then show "find_seed g w =
     bnd (randint 5 (int MAP_WIDTH - 5)) (\<lambda>cx.
     bnd (randint 5 (int MAP_HEIGHT - 5)) (\<lambda>cy.
     bnd (cell g cy cx) (\<lambda>v.
     if v \<noteq> MOUNTAIN then ret (cx, cy) else find_seed g))) w"
    by (subst find_seed.simps) simp
qed

lemma prefix_bnd_at:
  assumes "prefix_run m w" and "\<And>x w1. m w = Inr (x, w1) \<Longrightarrow> prefix_run (f x) w1"
  shows "prefix_run (bnd m f) w"
  unfolding prefix_run_def
proof (intro allI impI)
  fix y w' u
  assume r: "bnd m f w = Inr (y, w')"
  then obtain x w1 where m: "m w = Inr (x, w1)" and f: "f x w1 = Inr (y, w')"
    by (auto simp: bnd_def split: sum.splits)
  show "bnd m f (more_draws u w) = Inr (y, more_draws u w')"
    using prefix_runD [OF assms(1) m, of u] prefix_runD [OF assms(2) [OF m] f, of u]
    by (simp add: bnd_def)
qed

lemma prefix_find_seed [prefix_intros]: "prefix_run (find_seed g) w"
proof (induction "length (tape w)" arbitrary: w rule: less_induct)
  case less
  show ?case
  proof (subst find_seed_unfold, rule prefix_bnd_at [OF prefix_randint],
         rule prefix_bnd_at [OF prefix_randint], rule prefix_bnd_at [OF prefix_cell],
         rule prefix_if, rule prefix_ret)
    fix cx w1 cy w2 v w3
    assume "randint 5 (int MAP_WIDTH - 5) w = Inr (cx, w1)"
      and "randint 5 (int MAP_HEIGHT - 5) w1 = Inr (cy, w2)"
      and "cell g cy cx w2 = Inr (v, w3)"
    then have "length (tape w3) < length (tape w)"
      by (auto dest!: randint_shorter cell_same)
    then show "prefix_run (find_seed g) w3" by (rule less)
  qed
qed

lemma prefix_place_rocks [prefix_intros]: "prefix_run (place_rocks g k) w"
  unfolding place_rocks_def Let_def by (intro prefix_intros)

lemma prefix_found_river_in_band [prefix_intros]:
  "prefix_run (found_river_in_band g x y offsets) w"
proof (induction offsets arbitrary: w)
  case Nil
  show ?case by (simp add: found_river_in_band.simps prefix_ret)
next
  case (Cons offset offsets)
  show ?case
    unfolding found_river_in_band.simps Let_def
    by (intro prefix_intros Cons.IH)
qed

lemma prefix_fitness_central [prefix_intros]: "prefix_run (fitness_central g s) w"
  unfolding fitness_central_def by (intro prefix_intros)

lemma prefix_fitness_mountains [prefix_intros]: "prefix_run (fitness_mountains g s) w"
  unfolding fitness_mountains_def by (intro prefix_intros)

lemma prefix_fitness_river [prefix_intros]: "prefix_run (fitness_river g s) w"
  unfolding fitness_river_def by (intro prefix_intros)

lemma prefix_count_rocks [prefix_intros]: "prefix_run (count_rocks g) w"
  unfolding count_rocks_def by (intro prefix_intros)

lemma prefix_calculate_fitness [prefix_intros]: "prefix_run (calculate_fitness g) w"
  unfolding calculate_fitness_def by (intro prefix_intros)

lemma prefix_copy_row [prefix_intros]: "prefix_run (copy_row m y) w"
  unfolding copy_row_def by (intro prefix_intros)

lemma prefix_crossover [prefix_intros]: "prefix_run (crossover a b) w"
  unfolding crossover_def Let_def by (intro prefix_intros)

lemma prefix_mutate_cells [prefix_intros]: "prefix_run (mutate_cells g) w"
  unfolding mutate_cells_def by (intro prefix_intros)

lemma prefix_clear_rocks [prefix_intros]: "prefix_run (clear_rocks g) w"
  unfolding clear_rocks_def by (intro prefix_intros)

lemma prefix_mutate [prefix_intros]: "prefix_run (mutate g) w"
  unfolding mutate_def by (intro prefix_intros)

lemma prefix_new_individual [prefix_intros]: "prefix_run new_individual w"
  unfolding new_individual_def by (intro prefix_intros)

lemma prefix_init_population [prefix_intros]: "prefix_run (init_population n) w"
  unfolding init_population_def by (intro prefix_intros)

lemma prefix_fitness_scores [prefix_intros]: "prefix_run (fitness_scores pop) w"
  unfolding fitness_scores_def by (intro prefix_intros)

lemma prefix_py_max [prefix_intros]: "prefix_run (py_max xs) w"
  unfolding py_max_def by (intro prefix_intros)

lemma prefix_make_child [prefix_intros]: "prefix_run (make_child sp) w"
  unfolding make_child_def by (intro prefix_intros)

lemma prefix_fill_population [prefix_intros]: "prefix_run (fill_population n sp new) w"
proof (induction "n - length new" arbitrary: new w rule: less_induct)
  case less
  show ?case
  proof (subst fill_population.simps, rule prefix_if, rule prefix_bnd [OF prefix_make_child])
    fix child w1
    assume "length new < n"
    then have "n - length (new @ [child]) < n - length new" by simp
    then show "prefix_run (fill_population n sp (new @ [child])) w1" by (rule less)
  qed (rule prefix_ret)
qed

lemma prefix_generation [prefix_intros]: "prefix_run (generation n pop) w"
  unfolding generation_def Let_def by (intro prefix_intros)

lemma prefix_best_index [prefix_intros]: "prefix_run (best_index xs) w"
  unfolding best_index_def by (intro prefix_intros)

lemma prefix_run_run: "prefix_run (run n gens) w"
  unfolding run_def by (intro prefix_intros)

section \<open>The claims\<close>

text \<open>
  C1 (amended). After a pass, a border cell holds Mountain unless it lies in the river
  band of its column, where it holds River; a border cell in the band is in the first or
  in the last column (\<open>place_river\<close> spares the border rows only, and writes every
  column).
\<close>

theorem border_after_pass:
  assumes "after_pass w0 g w" and "y < MAP_HEIGHT" and "x < MAP_WIDTH" and "border y x"
  shows "cell g (int y) (int x) w = Inr (if in_band y x then RIVER else MOUNTAIN, w)
         \<and> (in_band y x \<longrightarrow> x = 0 \<or> x = MAP_WIDTH - 1)"
proof -
  from after_pass_constrained [OF assms(1)] have v: "valid g w" and c: "constrained w g"
    by simp_all
  have "tile_at w g y x = (if in_band y x then RIVER else MOUNTAIN)"
    using c assms(2-4) unfolding constrained_def by auto
  then show ?thesis
    using v assms(2-4) in_band_column [of x y] by (simp add: cell_nat)
qed

theorem border_after_pass_witness:
  "\<exists>w w'. after_pass fives [0..<30] w \<and> after_pass w [0..<30] w'
     \<and> cell [0..<30] 15 0 w = Inr (RIVER, w) \<and> cell [0..<30] 0 0 w = Inr (MOUNTAIN, w)
     \<and> cell [0..<30] 15 0 w' = Inr (RIVER, w') \<and> cell [0..<30] 0 0 w' = Inr (MOUNTAIN, w')"
proof -
  from example_passes obtain w w' where
    p: "after_pass fives [0..<30] w" "after_pass w [0..<30] w'"
    by (auto simp: after_pass_def)
  have b: "border 15 0" "border 0 0" by (simp_all add: border_def)
  show ?thesis
    using p border_after_pass [OF p(1) _ _ b(1)] border_after_pass [OF p(1) _ _ b(2)]
      border_after_pass [OF p(2) _ _ b(1)] border_after_pass [OF p(2) _ _ b(2)]
    by (auto simp: band_facts)
qed

theorem border_cell_river_counterexample:
  "border 15 0 \<and> returned (bnd new_individual (\<lambda>g. cell g 15 0) fives) = Inr RIVER"
proof -
  from example_passes obtain w where
    n: "new_individual fives = Inr ([0..<30], w)" "valid [0..<30] w" by blast
  have "constrained w [0..<30]" using new_individual_partial [OF n(1)] by simp
  then have "tile_at w [0..<30] 15 0 = RIVER"
    unfolding constrained_def using band_facts(1) by auto
  then have "cell [0..<30] 15 0 w = Inr (RIVER, w)"
    using cell_nat [OF n(2), of 15 0] by simp
  then show ?thesis by (simp add: bnd_def n(1) returned_def border_def)
qed

text \<open>
  C2 (amended). After a pass, a cell of the central circle (radius 8 around (15, 15))
  holds River if it lies in the river band of its column, and Plains or Rock otherwise:
  the river and the rock clusters are painted over the circle.
\<close>

theorem circle_after_pass:
  assumes "after_pass w0 g w" and "y < MAP_HEIGHT" and "x < MAP_WIDTH"
    and "is_in_central_circle (int x) (int y) 15 8"
  shows "if in_band y x then cell g (int y) (int x) w = Inr (RIVER, w)
         else cell g (int y) (int x) w = Inr (PLAINS, w) \<or> cell g (int y) (int x) w = Inr (ROCK, w)"
proof -
  from after_pass_constrained [OF assms(1)] have v: "valid g w" and c: "constrained w g"
    by simp_all
  have ci: "circle y x" using assms(4) by (simp add: circle_def)
  then have nb: "\<not> border y x" by (rule circle_not_border)
  have "if in_band y x then tile_at w g y x = RIVER
        else tile_at w g y x = PLAINS \<or> tile_at w g y x = ROCK"
    using c assms(2,3) ci nb unfolding constrained_def by auto
  then show ?thesis using v assms(2,3) by (simp add: cell_nat)
qed

theorem circle_after_pass_witness:
  "\<exists>w w'. after_pass fives [0..<30] w \<and> after_pass w [0..<30] w'
     \<and> is_in_central_circle 15 15 15 8 \<and> is_in_central_circle 11 11 15 8
     \<and> cell [0..<30] 15 15 w = Inr (RIVER, w) \<and> cell [0..<30] 11 11 w = Inr (ROCK, w)
     \<and> cell [0..<30] 15 15 w' = Inr (RIVER, w')
     \<and> (cell [0..<30] 11 11 w' = Inr (PLAINS, w') \<or> cell [0..<30] 11 11 w' = Inr (ROCK, w'))"
proof -
  from example_passes obtain w w' where
    p: "after_pass fives [0..<30] w" "after_pass w [0..<30] w'"
    and v: "valid [0..<30] w" and r: "tile_at w [0..<30] 11 11 = ROCK"
    by (auto simp: after_pass_def)
  have c: "is_in_central_circle (int 15) (int 15) 15 8" "is_in_central_circle (int 11) (int 11) 15 8"
    by (simp_all add: is_in_central_circle_def)
  have "cell [0..<30] 11 11 w = Inr (ROCK, w)"
    using cell_nat [OF v, of 11 11] r by simp
  then show ?thesis
    using p c circle_after_pass [OF p(1) _ _ c(1)] circle_after_pass [OF p(2) _ _ c(1)]
      circle_after_pass [OF p(2) _ _ c(2)]
    by (auto simp: band_facts)
qed

theorem circle_cell_not_plains_counterexample:
  "is_in_central_circle 15 15 15 8 \<and> is_in_central_circle 11 11 15 8 \<and>
   returned (bnd new_individual (\<lambda>g.
             bnd (cell g 15 15) (\<lambda>a. bnd (cell g 11 11) (\<lambda>b. ret (a, b)))) fives)
     = Inr (RIVER, ROCK)"
proof -
  from example_passes obtain w where
    n: "new_individual fives = Inr ([0..<30], w)" "valid [0..<30] w"
    and r: "tile_at w [0..<30] 11 11 = ROCK" by blast
  have "constrained w [0..<30]" using new_individual_partial [OF n(1)] by simp
  then have "tile_at w [0..<30] 15 15 = RIVER"
    unfolding constrained_def using band_facts(2) by auto
  then have "cell [0..<30] 15 15 w = Inr (RIVER, w)" "cell [0..<30] 11 11 w = Inr (ROCK, w)"
    using cell_nat [OF n(2), of 15 15] cell_nat [OF n(2), of 11 11] r by simp_all
  then show ?thesis
    by (simp add: bnd_def n(1) returned_def ret_def is_in_central_circle_def)
qed

text \<open>
  C3. After a pass, for every column \<open>x\<close> one of the three cells at the rows
  \<open>get_river_row x - 1\<close>, \<open>get_river_row x\<close>, \<open>get_river_row x + 1\<close> holds River
  (all three do).
\<close>

theorem river_in_every_column:
  assumes "after_pass w0 g w" and "x < MAP_WIDTH"
  shows "\<exists>offset\<in>{-1, 0, 1}. cell g (get_river_row x + offset) (int x) w = Inr (RIVER, w)"
proof -
  from after_pass_constrained [OF assms(1)] have v: "valid g w" and c: "constrained w g"
    by simp_all
  define y where "y = nat (get_river_row x)"
  have r: "12 \<le> get_river_row x" "get_river_row x \<le> 17"
    using river_row_range [OF assms(2)] by simp_all
  then have y: "int y = get_river_row x" "y < 30" by (simp_all add: y_def)
  then have "in_band y x" by (simp add: in_band_def)
  then have "tile_at w g y x = RIVER" using c y assms(2) unfolding constrained_def by auto
  then have "cell g (get_river_row x + 0) (int x) w = Inr (RIVER, w)"
    using cell_nat [OF v y(2) assms(2)] y by simp
  then show ?thesis by blast
qed

theorem river_in_every_column_witness:
  "\<exists>w w'. after_pass fives [0..<30] w \<and> after_pass w [0..<30] w'
     \<and> (\<exists>offset\<in>{-1, 0, 1}. cell [0..<30] (get_river_row 7 + offset) 7 w = Inr (RIVER, w))
     \<and> (\<exists>offset\<in>{-1, 0, 1}. cell [0..<30] (get_river_row 7 + offset) 7 w' = Inr (RIVER, w'))"
proof -
  from example_passes obtain w w' where
    p: "after_pass fives [0..<30] w" "after_pass w [0..<30] w'"
    by (auto simp: after_pass_def)
  show ?thesis
    using p river_in_every_column [OF p(1), of 7] river_in_every_column [OF p(2), of 7]
    by auto
qed

text \<open>
  C4 (amended). After a pass, a cell that holds River lies in the river band of its
  column, or else it is neither on the border nor in the central circle: there a River
  tile left by the random generation or by the mutation sweep stays.
\<close>

theorem river_cells_after_pass:
  assumes "after_pass w0 g w" and "y < MAP_HEIGHT" and "x < MAP_WIDTH"
    and "cell g (int y) (int x) w = Inr (RIVER, w)"
  shows "in_band y x \<or> (\<not> border y x \<and> \<not> is_in_central_circle (int x) (int y) 15 8)"
proof -
  from after_pass_constrained [OF assms(1)] have v: "valid g w" and c: "constrained w g"
    by simp_all
  have "tile_at w g y x = RIVER" using assms(2-4) v by (simp add: cell_nat)
  then show ?thesis
    using c assms(2,3) unfolding constrained_def circle_def [symmetric] by fastforce
qed

theorem river_cells_after_pass_witness:
  "\<exists>w. after_pass sixes [0..<30] w \<and> cell [0..<30] 2 2 w = Inr (RIVER, w)
      \<and> (in_band 2 2 \<or> (\<not> border 2 2 \<and> \<not> is_in_central_circle 2 2 15 8))"
proof -
  from example_river obtain w where
    n: "new_individual sixes = Inr ([0..<30], w)" "valid [0..<30] w"
    and r: "tile_at w [0..<30] 2 2 = RIVER" by blast
  have p: "after_pass sixes [0..<30] w" using n by (simp add: after_pass_def)
  have c: "cell [0..<30] (int 2) (int 2) w = Inr (RIVER, w)"
    using cell_nat [OF n(2), of 2 2] r by simp
  show ?thesis
    by (rule exI [of _ w]) (use p c river_cells_after_pass [OF p _ _ c] in simp)
qed

theorem river_outside_band_counterexample:
  "\<not> in_band 2 2 \<and> returned (bnd new_individual (\<lambda>g. cell g 2 2) sixes) = Inr RIVER"
proof -
  from example_river obtain w where
    n: "new_individual sixes = Inr ([0..<30], w)" "valid [0..<30] w"
    and r: "tile_at w [0..<30] 2 2 = RIVER" by blast
  have "cell [0..<30] 2 2 w = Inr (RIVER, w)"
    using cell_nat [OF n(2), of 2 2] r by simp
  then show ?thesis by (simp add: bnd_def n(1) returned_def band_facts)
qed

text \<open>
  C5. On a map of 30 rows of 30 tiles, \<open>calculate_fitness\<close> returns the sum of the four
  terms: +1 or -1 for each cell of the radius-8 circle (Plains or not), -10 or +5 for
  each Mountain cell (inside the radius-13 circle or not), +50 or -500 for each column
  (River in its 3-row band or not), and +50 if the number of Rock cells is between 20
  and 40, else minus the distance of that number from 22. It changes nothing.
\<close>

theorem fitness_is_sum_of_four_terms:
  assumes "valid g w"
  shows "calculate_fitness g w
           = Inr (central_term w g + mountain_term w g + river_term w g + rock_term w g, w)"
  using calculate_fitness_eq [OF assms] by (simp add: score_def)

theorem fitness_is_sum_of_four_terms_witness:
  "valid [0..<30] plains_world
   \<and> calculate_fitness [0..<30] plains_world = Inr (- 14825, plains_world)"
  using fitness_is_sum_of_four_terms [OF valid_plains_world] valid_plains_world
  by (simp add: score_plains_world)

text \<open>
  C10. After \<open>mutate\<close> returns, the map holds at most 40 Rock cells: the rocks are
  cleared before \<open>place_rocks\<close> paints 8 clusters of at most 5 cells. The counting loop
  of \<open>calculate_fitness\<close> finds that number.
\<close>

theorem at_most_40_rocks_after_mutate:
  assumes "valid g w0" and "mutate g w0 = Inr (g', w)"
  shows "g' = g \<and> rock_cells w g' \<le> 40 \<and> count_rocks g' w = Inr (int (rock_cells w g'), w)"
proof -
  from mutate_partial [OF assms] have "g' = g" "valid g w" "rock_cells w g \<le> 40"
    by simp_all
  then show ?thesis using count_rocks_eq [of g w] by simp
qed

theorem at_most_40_rocks_after_mutate_witness:
  "\<exists>w w'. valid [0..<30] w \<and> mutate [0..<30] w = Inr ([0..<30], w')
     \<and> rock_cells w' [0..<30] \<le> 40
     \<and> count_rocks [0..<30] w' = Inr (int (rock_cells w' [0..<30]), w')"
proof -
  from example_passes obtain w w' where
    m: "valid [0..<30] w" "mutate [0..<30] w = Inr ([0..<30], w')" by blast
  show ?thesis using m at_most_40_rocks_after_mutate [OF m] by blast
qed

text \<open>
  C6. For two maps of 30 rows of 30 tiles, \<open>crossover\<close> returns a child whose rows
  0 to mid - 1 are copies of the rows of the first parent and whose rows mid to 29 are
  copies of the rows of the second, with mid = 30 div 2. No draw is consumed and the
  child is the same whatever the random source holds: the split row is fixed.
\<close>

theorem crossover_splits_at_mid:
  assumes "valid map1 w" and "valid map2' w"
  shows "\<exists>child w'. crossover map1 map2' w = Inr (child, w')
           \<and> valid child w' \<and> tape w' = tape w
           \<and> (\<forall>y<MAP_HEIGHT. row_of w' child y =
                 (if y < MAP_HEIGHT div 2 then row_of w map1 y else row_of w map2' y))
           \<and> (\<forall>a<length (heap w). heap w' ! a = heap w ! a)
           \<and> (\<forall>t. \<exists>w''. crossover map1 map2' (w\<lparr>tape := t\<rparr>) = Inr (child, w'')
                         \<and> heap w'' = heap w')"
proof -
  let ?child = "[length (heap w)..<length (heap w) + 30]"
  let ?w' = "w\<lparr>heap := heap w @ crossover_rows w map1 map2' 30\<rparr>"
  have other: "valid map1 (w\<lparr>tape := t\<rparr>)" "valid map2' (w\<lparr>tape := t\<rparr>)" for t
    using assms by (simp_all add: valid_def)
  have "crossover map1 map2' w = Inr (?child, ?w')"
    by (rule crossover_eq [OF assms])
  moreover have "valid ?child ?w'"
    by (rule valid_crossover [OF assms])
  moreover have "\<forall>y<MAP_HEIGHT. row_of ?w' ?child y =
                 (if y < MAP_HEIGHT div 2 then row_of w map1 y else row_of w map2' y)"
    by (simp add: row_of_def crossover_rows_def nth_append)
  moreover have "\<forall>a<length (heap w). heap ?w' ! a = heap w ! a"
    by (simp add: nth_append)
  moreover have "\<forall>t. \<exists>w''. crossover map1 map2' (w\<lparr>tape := t\<rparr>) = Inr (?child, w'')
                         \<and> heap w'' = heap ?w'"
    using crossover_eq [OF other] by (simp add: crossover_rows_def)
  ultimately show ?thesis by simp
qed

lemma valid_two_parents: "valid [0..<30] two_parents" "valid [30..<60] two_parents"
  by (auto simp: valid_def two_parents_def nth_append)

theorem crossover_splits_at_mid_witness:
  "valid [0..<30] two_parents \<and> valid [30..<60] two_parents \<and>
   (\<exists>child w'. crossover [0..<30] [30..<60] two_parents = Inr (child, w')
      \<and> row_of w' child 14 = replicate 30 PLAINS \<and> row_of w' child 15 = replicate 30 ROCK)"
proof -
  from crossover_splits_at_mid [OF valid_two_parents]
  obtain child w' where c: "crossover [0..<30] [30..<60] two_parents = Inr (child, w')"
    and rows: "\<forall>y<MAP_HEIGHT. row_of w' child y =
       (if y < MAP_HEIGHT div 2 then row_of two_parents [0..<30] y
        else row_of two_parents [30..<60] y)"
    by blast
  have "row_of w' child 14 = replicate 30 PLAINS"
    using rows by (simp add: row_of_def two_parents_def nth_append)
  moreover have "row_of w' child 15 = replicate 30 ROCK"
    using rows by (simp add: row_of_def two_parents_def nth_append)
  ultimately show ?thesis using c valid_two_parents by blast
qed

text \<open>
  C7. In a generation step on a non-empty population of well-formed maps, the (up to)
  five maps of highest fitness fill the first slots of the next population; building
  the children does not change a row of them (nor of any other map of the old
  population: children are fresh copies, and \<open>mutate\<close> writes into the child only);
  so their fitness scores in the next generation are the five greatest scores of this
  one.
\<close>

theorem elites_carried_unchanged:
  assumes "valid_pop population w0" and "population \<noteq> []"
    and "fitness_scores population w0 = Inr (scores, w0)"
    and "generation n population w0 = Inr (new_population, w)"
  shows "take (min 5 (length population)) new_population
           = take 5 (sorted_by_score scores population)
       \<and> (\<forall>g\<in>set population. \<forall>y<MAP_HEIGHT. row_of w g y = row_of w0 g y)
       \<and> fitness_scores (take (min 5 (length population)) new_population) w
           = Inr (take 5 (rev (sort scores)), w)"
proof -
  have sc: "scores = map (score w0) population"
    using fitness_scores_eq [OF assms(1)] assms(3) by simp
  let ?elites = "take 5 (sorted_by_score scores population)"
  have "outcome starved (\<lambda>pop' w. extends w0 w \<and> valid_pop pop' w \<and> pop' \<noteq> []
            \<and> take (min 5 (length population)) pop' = ?elites
            \<and> length pop' = max n (min 5 (length population)) \<and> fed starved 0 0 (tape w)
            \<and> known starved (\<forall>g\<in>set pop'. marked 0 w g))
           (generation n population w0)"
    unfolding sc by (rule generation_spec [OF assms(1,2)]) simp_all
  then have ex: "extends w0 w" and carried: "take (min 5 (length population)) new_population = ?elites"
    by (simp_all add: assms(4))
  have sub: "set ?elites \<subseteq> set population"
    using set_sorted_by_score [of scores population] sc by (auto dest: in_set_takeD)
  have v: "valid g w0" if "g \<in> set population" for g
    using that assms(1) by (simp add: valid_pop_def)
  have rows: "\<forall>g\<in>set population. \<forall>y<MAP_HEIGHT. row_of w g y = row_of w0 g y"
    using extends_row [OF ex] v by simp
  have ve: "valid_pop ?elites w"
    using sub v extends_valid [OF ex] by (auto simp: valid_pop_def)
  have "map (score w) ?elites = map (score w0) ?elites"
    using sub v extends_score [OF ex] by (simp add: subset_iff)
  also have "\<dots> = take 5 (map (score w0) (sorted_by_score scores population))"
    by (simp add: take_map)
  also have "\<dots> = take 5 (rev (sort scores))"
    unfolding sc by (simp only: sorted_by_score_scores)
  finally have "fitness_scores ?elites w = Inr (take 5 (rev (sort scores)), w)"
    using fitness_scores_eq [OF ve] by simp
  then show ?thesis using carried rows by simp
qed

theorem elites_carried_unchanged_witness:
  "\<exists>w scores pop' w'. new_individual (steady 5) = Inr ([0..<30], w)
      \<and> valid_pop [[0..<30]] w
      \<and> fitness_scores [[0..<30]] w = Inr (scores, w)
      \<and> generation 2 [[0..<30]] w = Inr (pop', w') \<and> length pop' = 2
      \<and> take 1 pop' = [[0..<30]]
      \<and> (\<forall>y<30. row_of w' [0..<30] y = row_of w [0..<30] y)
      \<and> fitness_scores (take 1 pop') w' = Inr (scores, w')"
proof -
  have "tape (steady 5) = replicate 20000000 5" by (simp add: steady_def)
  from new_individual_total [OF this, of 4000] circle_5 obtain g w m where
    n: "new_individual (steady 5) = Inr (g, w)" "fresh_map (steady 5) w g"
      "4000 \<le> m" "tape w = replicate m 5"
    and t: "\<forall>y<30. \<forall>x<30.
                 tile_at w g y x = shaped y x (generated 5 y x) \<or>
                 (shaped y x (generated 5 y x) = PLAINS \<and> tile_at w g y x = ROCK)"
    by auto
  have mk: "known never (\<forall>g'\<in>set [g]. marked 5 w g')"
    using new_individual_marked [of never 5 w g] t quiet_5_6 by (simp add: known_def)
  have q: "known never (quiet 5)" using quiet_5_6 by (simp add: known_def)
  have g: "g = [0..<30]" using fresh_map_empty [OF _ n(2)] by (simp add: steady_def)
  have vp: "valid_pop [g] w" using fresh_map_valid [OF n(2)] by (simp add: valid_pop_def)
  have fs: "fitness_scores [g] w = Inr ([score w g], w)"
    using fitness_scores_eq [OF vp] by simp
  have "fed never 5 (1906 * 2 + 0) (tape w)" using n(3,4) by (auto simp: fed_never)
  from outcome_never [OF generation_spec [OF vp _ this q mk]]
  obtain pop' w' where gen: "generation 2 [g] w = Inr (pop', w')" "length pop' = 2"
    by auto
  from elites_carried_unchanged [OF vp _ fs gen(1)]
  have "take 1 pop' = [g]" "\<forall>y<30. row_of w' g y = row_of w g y"
    "fitness_scores (take 1 pop') w' = Inr ([score w g], w')"
    by (auto simp: sorted_by_score_def)
  then show ?thesis using n(1) vp fs gen g by blast
qed

text \<open>
  C9 (amended). The program checks no configuration and has no InvalidConfiguration
  error. For every population size of at least 1, also below 6, and every number of
  generations, a run raises neither IndexError nor ValueError, and the map it returns
  has 30 rows of 30 tiles; with a population size of 0 Python's \<^verbatim>\<open>max\<close> raises
  ValueError on the empty list of scores.
\<close>

theorem run_raises_nothing:
  "(1 \<le> n \<longrightarrow> run n gens w \<noteq> Inl IndexError \<and> run n gens w \<noteq> Inl ValueError
       \<and> (\<forall>best w'. run n gens w = Inr (best, w') \<longrightarrow> valid best w'))
   \<and> run 0 gens w = Inl ValueError"
proof -
  have "run n gens w \<noteq> Inl IndexError \<and> run n gens w \<noteq> Inl ValueError
       \<and> (\<forall>best w'. run n gens w = Inr (best, w') \<longrightarrow> valid best w')" if "1 \<le> n"
  proof -
    have "outcome starved (\<lambda>best w'. extends w w' \<and> valid best w' \<and> fed starved 0 0 (tape w')
            \<and> known starved (marked 0 w' best)) (run n gens w)"
      by (rule run_spec [OF that]) simp_all
    from outcome_starved [OF this] show ?thesis by blast
  qed
  then show ?thesis using run_empty_population by blast
qed

theorem run_raises_nothing_witness:
  "(1::nat) \<le> 3 \<and> (\<exists>best w'. run 3 1 (steady 5) = Inr (best, w') \<and> valid best w')
   \<and> run 3 1 (steady 5) \<noteq> Inl ValueError \<and> run 0 1 (steady 5) = Inl ValueError"
proof -
  from run_steady [of 3 1 5] quiet_5_6 obtain best w' where
    "run 3 1 (steady 5) = Inr (best, w')" by auto
  then show ?thesis using run_raises_nothing [of 3 1 "steady 5"] by simp
qed

theorem small_population_runs_counterexample:
  "returned (bnd (run 3 1) (\<lambda>best. ret (length best)) (steady 5)) = Inr 30
   \<and> run 0 1 (steady 5) = Inl ValueError"
proof -
  from run_steady [of 3 1 5] quiet_5_6 obtain best w' where
    "run 3 1 (steady 5) = Inr (best, w')" "valid best w'" by auto
  then show ?thesis
    by (simp add: bnd_def ret_def returned_def valid_def run_empty_population)
qed

text \<open>
  C8 (amended). A run has no seed parameter: it reads the process-wide generator, which
  the program never seeds. What a run returns is determined by the configuration and
  the draws it consumes: when a run returns, the run from a store with the same rows
  whose generator yields the same draws followed by any others returns the same best
  map with the same tiles, and leaves those other draws unread.
\<close>

theorem run_determined_by_its_draws:
  assumes "run n gens w = Inr (best, w')"
  shows "run n gens (more_draws u w) = Inr (best, more_draws u w')
       \<and> heap (more_draws u w') = heap w' \<and> tape (more_draws u w') = tape w' @ u"
  using prefix_runD [OF prefix_run_run assms, of u] by (simp add: more_draws_def)

theorem run_determined_by_its_draws_witness:
  "\<exists>best w'. run POPULATION_SIZE GENERATIONS (steady 5) = Inr (best, w')
      \<and> run POPULATION_SIZE GENERATIONS (more_draws [1, 2, 3] (steady 5))
          = Inr (best, more_draws [1, 2, 3] w')
      \<and> tape (more_draws [1, 2, 3] w') = tape w' @ [1, 2, 3]"
proof -
  from run_steady [of 50 200 5] quiet_5_6 obtain best w' where
    r: "run 50 200 (steady 5) = Inr (best, w')" by auto
  from run_determined_by_its_draws [OF r, of "[1, 2, 3]"] r show ?thesis by blast
qed

theorem run_depends_on_generator_state_counterexample:
  "returned (bnd (run POPULATION_SIZE GENERATIONS) (\<lambda>best. cell best 2 2) (steady 5))
     = Inr MOUNTAIN
   \<and> returned (bnd (run POPULATION_SIZE GENERATIONS) (\<lambda>best. cell best 2 2) (steady 6))
     = Inr RIVER"
proof -
  from run_steady [of 50 200 5] quiet_5_6 obtain b5 w5 where
    r5: "run 50 200 (steady 5) = Inr (b5, w5)" "valid b5 w5" "tile_at w5 b5 2 2 = MOUNTAIN"
    by (auto simp: tile_of_int_def)
  from run_steady [of 50 200 6] quiet_5_6 obtain b6 w6 where
    r6: "run 50 200 (steady 6) = Inr (b6, w6)" "valid b6 w6" "tile_at w6 b6 2 2 = RIVER"
    by (auto simp: tile_of_int_def)
  have "cell b5 2 2 w5 = Inr (MOUNTAIN, w5)" "cell b6 2 2 w6 = Inr (RIVER, w6)"
    using cell_nat [OF r5(2), of 2 2] cell_nat [OF r6(2), of 2 2] r5(3) r6(3) by simp_all
  then show ?thesis using r5(1) r6(1) by (simp add: bnd_def returned_def)
qed

end
